theory Spec2Isabelle
  imports Main "HOL-Library.AList"
begin

section \<open>The analysis result and its two renderings\<close>

text \<open>
  The intake wizard \<open>IntakeFlow\<close> of \<open>TalentDashboard.jsx\<close> shows an analysis
  result twice: as the interactive results view (JSX) and as a printable report (an HTML
  template string written into a new window). Both derive CSS classes from the severity
  tier and from the urgency of every checklist document.
\<close>

subsection \<open>String primitives of the host language\<close>

text \<open>
  Strings are lists of characters. \<open>toLowerCase\<close> is modelled on the letters A to Z;
  every other character is left as it is. (The needles searched for below are ASCII, and
  no character outside A to Z lower-cases to a run of ASCII letters that could complete
  one of them.)
\<close>

definition toLowerCase_char :: "char \<Rightarrow> char" where
  "toLowerCase_char c =
     (let n = (of_char c :: nat) in if 65 \<le> n \<and> n \<le> 90 then char_of (n + 32) else c)"

definition toLowerCase :: "string \<Rightarrow> string" where
  "toLowerCase s = map toLowerCase_char s"

text \<open>\<open>startsWith s n\<close>: the string \<open>s\<close> begins with \<open>n\<close>.\<close>

fun startsWith :: "string \<Rightarrow> string \<Rightarrow> bool" where
  "startsWith s [] = True"
| "startsWith [] (c # n) = False"
| "startsWith (d # s) (c # n) = (d = c \<and> startsWith s n)"

text \<open>\<open>String.prototype.includes\<close>: \<open>n\<close> occurs in \<open>s\<close> at some position.\<close>

fun includes_str :: "string \<Rightarrow> string \<Rightarrow> bool" where
  "includes_str [] n = (n = [])"
| "includes_str (c # s) n = (startsWith (c # s) n \<or> includes_str s n)"

text \<open>The character class \<open>\d\<close> and the value of a run of decimal digits.\<close>

definition is_digit :: "char \<Rightarrow> bool" where
  "is_digit c = (let n = (of_char c :: nat) in 48 \<le> n \<and> n \<le> 57)"

definition digit_value :: "char \<Rightarrow> nat" where
  "digit_value c = of_char c - 48"

text \<open>
  \<open>digits_value\<close> is the integer a run of decimal digits denotes. \<open>parseInt\<close> on a
  captured run of digits returns a double. Up to \<open>2 ^ 53\<close> (which is
  9007199254740992) the double is the integer the digits denote, leading zeros included.
  Above, it is some double not below \<open>2 ^ 53\<close>, possibly \<open>Infinity\<close>; which one is left
  to the implementation for long runs, and the model keeps only that fact: \<open>Beyond\<close>.
\<close>

datatype number = Exact nat | Beyond

definition digits_value :: "string \<Rightarrow> nat" where
  "digits_value ds = foldl (\<lambda>n c. 10 * n + digit_value c) 0 ds"

definition parseInt :: "string \<Rightarrow> number" where
  "parseInt ds =
     (if digits_value ds \<le> 9007199254740992 then Exact (digits_value ds) else Beyond)"

text \<open>
  \<open>x >= k\<close> for a threshold \<open>k\<close>. A number beyond \<open>2 ^ 53\<close> is at least every
  threshold up to \<open>2 ^ 53\<close>; the component compares with 8 and 6 only.
\<close>

fun number_ge :: "number \<Rightarrow> nat \<Rightarrow> bool" where
  "number_ge (Exact m) k = (k \<le> m)"
| "number_ge Beyond k = (k \<le> 9007199254740992)"

text \<open>
  The regular expression \<open>/Level (\d+)/\<close>. \<open>match_here s\<close> tries it at the start of
  \<open>s\<close> and returns the captured group: the longest run of digits after \<open>Level \<close>, which
  must not be empty. \<open>match_Level s\<close> is \<open>s.match(...)\<close>: the leftmost position where
  the expression matches.
\<close>

definition match_here :: "string \<Rightarrow> string option" where
  "match_here s =
     (if startsWith s ''Level '' \<and> takeWhile is_digit (drop 6 s) \<noteq> []
      then Some (takeWhile is_digit (drop 6 s)) else None)"

fun match_Level :: "string \<Rightarrow> string option" where
  "match_Level [] = None"
| "match_Level (c # s) =
     (case match_here (c # s) of Some ds \<Rightarrow> Some ds | None \<Rightarrow> match_Level s)"

subsection \<open>The analysis result\<close>

text \<open>
  The tier arrives in a JSON body: it may be absent (\<open>undefined\<close> or \<open>null\<close>), a string,
  a number, or something else (a boolean, an array, an object).
\<close>

datatype tier = Tier_absent | Tier_string string | Tier_number int | Tier_other

record case_analysis =
  summary :: string
  severity_tier :: tier
  legal_category :: string
  limitation_status :: string
  risk_warning :: "string option"

record portal_link =
  link_name :: string
  url :: string
  purpose :: string

record doc_item =
  document :: string
  source :: string
  urgency :: string

record recommended_service =
  product_name :: string
  price_point :: string
  cta_text :: string

record analysis =
  case_analysis :: case_analysis
  official_portal_links :: "portal_link list"
  smart_document_checklist :: "doc_item list"
  immediate_next_steps :: "string list"
  recommended_service :: recommended_service

subsection \<open>Severity\<close>

text \<open>
  \<open>const severityMatch = case_analysis.severity_tier?.match(/Level (\d+)/);\<close>
  \<open>const severityLevel = severityMatch ? parseInt(severityMatch[1]) : 5;\<close>
  An absent tier short-circuits the optional chain and takes the default. A tier that is
  present but not a string has no \<open>match\<close> method: the call throws a TypeError, out of
  the render.
\<close>

datatype error = TypeError

definition severityLevel :: "tier \<Rightarrow> error + number" where
  "severityLevel tier =
     (case tier of
        Tier_absent \<Rightarrow> Inr (Exact 5)
      | Tier_string s \<Rightarrow>
          (case match_Level s of None \<Rightarrow> Inr (Exact 5) | Some ds \<Rightarrow> Inr (parseInt ds))
      | Tier_number n \<Rightarrow> Inl TypeError
      | Tier_other \<Rightarrow> Inl TypeError)"

text \<open>The class attribute of the severity badge in the results view.\<close>

definition view_severity_badge :: "case_analysis \<Rightarrow> error + string" where
  "view_severity_badge ca =
     (case severityLevel (severity_tier ca) of
        Inl e \<Rightarrow> Inl e
      | Inr level \<Rightarrow>
          Inr (''severity-badge severity-'' @
            (if number_ge level 8 then ''critical''
             else if number_ge level 6 then ''high'' else ''moderate'')))"

text \<open>The class attribute of the severity badge in the printable report.\<close>

definition report_severity_badge :: "case_analysis \<Rightarrow> error + string" where
  "report_severity_badge ca =
     (case severityLevel (severity_tier ca) of
        Inl e \<Rightarrow> Inl e
      | Inr level \<Rightarrow>
          Inr (''severity-badge '' @
            (if number_ge level 8 then ''severity-critical''
             else if number_ge level 6 then ''severity-high''
             else ''severity-moderate'')))"

subsection \<open>Urgency of a checklist document\<close>

text \<open>
  The results view interpolates one of three words after \<open>urgency-\<close>; the report
  interpolates \<open>high\<close> or the empty string (its style sheet has the single rule
  \<open>.doc-urgency.high\<close>).
\<close>

definition view_urgency :: "string \<Rightarrow> string" where
  "view_urgency u =
     (if includes_str (toLowerCase u) ''high'' then ''high''
      else if includes_str (toLowerCase u) ''immediate'' then ''immediate'' else ''medium'')"

definition report_urgency :: "string \<Rightarrow> string" where
  "report_urgency u = (if includes_str (toLowerCase u) ''high'' then ''high'' else [])"

definition view_doc_urgency :: "doc_item \<Rightarrow> string" where
  "view_doc_urgency doc = ''doc-urgency urgency-'' @ view_urgency (urgency doc)"

definition report_doc_urgency :: "doc_item \<Rightarrow> string" where
  "report_doc_urgency doc = ''doc-urgency '' @ report_urgency (urgency doc)"

text \<open>The classes of the whole checklist, in the order of the documents.\<close>

definition view_checklist :: "analysis \<Rightarrow> string list" where
  "view_checklist r = map view_doc_urgency (smart_document_checklist r)"

definition report_checklist :: "analysis \<Rightarrow> string list" where
  "report_checklist r = map report_doc_urgency (smart_document_checklist r)"

subsection \<open>Decimal numerals\<close>

text \<open>
  The decimal numeral of a natural number, most significant digit first. It is not part of
  the component; it is used to write the tier \<open>Level N\<close> for an arbitrary \<open>N\<close>.
\<close>

fun decimal :: "nat \<Rightarrow> string" where
  "decimal n =
     (if n < 10 then [char_of (48 + n)]
      else decimal (n div 10) @ [char_of (48 + n mod 10)])"

declare decimal.simps [simp del]

section \<open>The intake wizard\<close>

text \<open>
  \<open>IntakeFlow\<close> is a React function component. Its state is five \<open>useState\<close> cells;
  every handler reads the cells of the render in which it was created and writes through
  the setters. The model passes a record of the cells from event to event: one event, one
  render.
\<close>

subsection \<open>The question catalogue\<close>

text \<open>
  The constant \<open>QUESTIONS\<close>, in declaration order. The fields \<open>id\<close> and \<open>type\<close> of
  the source are \<open>qid\<close> and \<open>qtype\<close> here.
\<close>

datatype qtype = Select | Multiselect

record question =
  qid :: string
  part :: nat
  title :: string
  subtitle :: string
  qtype :: qtype
  options :: "string list"

definition QUESTIONS :: "question list" where
  "QUESTIONS = [
    \<lparr>qid = ''location'', part = 1, title = ''Location of the Property'',
     subtitle = ''Land laws differ by state'', qtype = Select,
     options = [''Maharashtra'', ''Karnataka'', ''Tamil Nadu'', ''Kerala'', ''Andhra Pradesh'',
       ''Telangana'', ''Gujarat'', ''Rajasthan'', ''Uttar Pradesh'', ''Madhya Pradesh'',
       ''Delhi'', ''Punjab'', ''Haryana'', ''West Bengal'', ''Bihar'', ''Other'']\<rparr>,
    \<lparr>qid = ''property_type'', part = 1, title = ''Type of Property'',
     subtitle = ''Determines which court has jurisdiction'', qtype = Select,
     options = [''Agricultural Land'', ''Residential Plot/House'', ''Apartment/Flat'',
       ''Commercial Property'']\<rparr>,
    \<lparr>qid = ''possession_status'', part = 1, title = ''Current Status of the Property'',
     subtitle = ''Possession is 9/10ths of the law'', qtype = Select,
     options = [''I am in possession'', ''The other party is in possession'',
       ''It is a vacant lot/open land'', ''We share possession'']\<rparr>,
    \<lparr>qid = ''opponent_type'', part = 2, title = ''Who is the dispute with?'',
     subtitle = ''Determines the type of legal action needed'', qtype = Select,
     options = [''Family Member/Relative'', ''Neighbor'', ''Builder/Developer'', ''Tenant'',
       ''Government/Authority'', ''Stranger/Land Grabber'']\<rparr>,
    \<lparr>qid = ''core_issue'', part = 2, title = ''What is the core issue?'',
     subtitle = ''Select the closest match'', qtype = Select,
     options = [''They are blocking my access/pathway'',
       ''They have illegally occupied/built on my land'',
       ''They created fake documents/sold my land'',
       ''Family members are refusing to give my share'',
       ''Tenant is refusing to vacate or pay rent'',
       ''Government is acquiring land/refusing mutation'']\<rparr>,
    \<lparr>qid = ''ancestral_status'', part = 2,
     title = ''Is the property Ancestral or Self-Acquired?'',
     subtitle = ''Crucial for family disputes'', qtype = Select,
     options = [''Ancestral (Grandparents' property)'',
       ''Self-Acquired (Bought by me/parents)'', ''Don't Know'']\<rparr>,
    \<lparr>qid = ''revenue_records_name'', part = 3,
     title = ''Whose name is on the Revenue Records?'',
     subtitle = ''7/12 Extract, Khata, Patta, Jamabandi'', qtype = Select,
     options = [''My name'', ''Late parent/relative's name'', ''Opponent's name'',
       ''Joint names'', ''Don't know'']\<rparr>,
    \<lparr>qid = ''documents_held'', part = 3, title = ''Which documents do you have?'',
     subtitle = ''Select all that apply'', qtype = Multiselect,
     options = [''Registered Sale Deed'', ''Will'', ''Gift Deed'',
       ''Agreement to Sale (Notary)'', ''Power of Attorney'', ''Recent Tax Receipt'',
       ''7/12 Extract / Khata'', ''None'']\<rparr>,
    \<lparr>qid = ''police_court_status'', part = 4, title = ''Has any legal action been taken?'',
     subtitle = ''Police complaint or court case'', qtype = Select,
     options = [''No legal action yet'', ''Police Complaint filed'',
       ''Court Case pending (Summons received)'',
       ''Court Decree passed (Need execution)'']\<rparr>,
    \<lparr>qid = ''immediate_threat'', part = 4, title = ''Is there an immediate threat?'',
     subtitle = ''Determines urgency of action'', qtype = Select,
     options = [''No immediate threat'', ''Construction is starting on the land now'',
       ''They are threatening physical violence/dispossession'',
       ''They are trying to sell the land to a third party'']\<rparr>,
    \<lparr>qid = ''dispute_start_date'', part = 4, title = ''When did the dispute start?'',
     subtitle = ''Important for Limitation Act'', qtype = Select,
     options = [''Less than 3 years ago'', ''3-12 years ago'', ''More than 12 years ago'']\<rparr>,
    \<lparr>qid = ''desired_outcome'', part = 4, title = ''What is your desired outcome?'',
     subtitle = ''Helps determine best approach'', qtype = Select,
     options = [''I want to sell and exit'', ''I want to keep the land and use it'',
       ''I just want monetary compensation'', ''I want to stop them from bothering me'']\<rparr>]"

definition PART_LABELS :: "nat \<Rightarrow> string option" where
  "PART_LABELS p =
     (if p = 1 then Some ''Property Details'' else if p = 2 then Some ''Dispute Details''
      else if p = 3 then Some ''Documentation'' else if p = 4 then Some ''Urgency & Status''
      else None)"

subsection \<open>State\<close>

text \<open>
  An answer is a string (single-select) or an array of strings (multi-select). The answer
  object is an association list in insertion order; \<open>AList.update\<close> is the object spread
  \<open>{ ...answers, [question.id]: value }\<close>: an existing key keeps its place, a new key goes
  to the end.
\<close>

datatype answer = Single string | Multi "string list"

type_synonym answer_map = "(string \<times> answer) list"

text \<open>
  What the arrow function handed to \<open>setTimeout\<close> closes over: \<open>currentQuestion\<close>,
  \<open>answers\<close>, \<open>question\<close> and \<open>value\<close> of the render and the call in which it was
  created.
\<close>

record timer =
  t_currentQuestion :: nat
  t_answers :: answer_map
  t_question :: question
  t_value :: string

text \<open>
  How a \<open>fetch\<close> ends: the promise is rejected (no response), or a response arrives with
  its \<open>ok\<close> flag and a body that \<open>response.json()\<close> parses or rejects.
\<close>

datatype body = Json analysis | NotJson string

datatype outcome = Rejected string | Responded bool body

text \<open>
  The five state cells, followed by what the component has handed to its environment: the
  pending timers with the id counter of \<open>setTimeout\<close>, the bodies of the requests sent, the
  number of requests not yet settled, the lines written by \<open>console.error\<close>, and the
  routes passed to \<open>navigate\<close>. Routing itself belongs to the host application: a call of
  \<open>navigate\<close> is recorded and the cells are left as they are.
\<close>

record wizard =
  currentQuestion :: nat
  answers :: answer_map
  isAnalyzing :: bool
  analysisResult :: "analysis option"
  error :: "string option"
  timers :: "(nat \<times> timer) list"
  nextTimer :: nat
  requests :: "answer_map list"
  pending :: nat
  console :: "string list"
  navigated :: "string list"

definition initial :: wizard where
  "initial = \<lparr>currentQuestion = 0, answers = [], isAnalyzing = False, analysisResult = None,
     error = None, timers = [], nextTimer = 0, requests = [], pending = 0, console = [],
     navigated = []\<rparr>"

text \<open>
  \<open>const question = QUESTIONS[currentQuestion]\<close>; out of range the source reads
  \<open>undefined\<close>.
\<close>

definition question :: "wizard \<Rightarrow> question option" where
  "question st =
     (if currentQuestion st < length QUESTIONS then Some (QUESTIONS ! currentQuestion st)
      else None)"

subsection \<open>Submission\<close>

text \<open>
  \<open>submitCaseWithAnswer\<close> and \<open>submitCase\<close> up to \<open>await fetch(...)\<close>: both set
  \<open>isAnalyzing\<close>, clear \<open>error\<close> and send one POST request whose body is the argument,
  respectively the \<open>answers\<close> cell.
\<close>

definition submitCaseWithAnswer :: "answer_map \<Rightarrow> wizard \<Rightarrow> wizard" where
  "submitCaseWithAnswer finalAnswers st =
     st\<lparr>isAnalyzing := True, error := None,
        requests := requests st @ [finalAnswers], pending := pending st + 1\<rparr>"

definition submitCase :: "wizard \<Rightarrow> wizard" where
  "submitCase st =
     st\<lparr>isAnalyzing := True, error := None,
        requests := requests st @ [answers st], pending := pending st + 1\<rparr>"

text \<open>
  The rest of either function, which is the same text in both. \<open>catch_block\<close> is the
  \<open>catch\<close> clause; \<open>settle\<close> continues after the \<open>await\<close> with the outcome of the
  request: a response that is not \<open>ok\<close> throws \<open>Error('Analysis failed')\<close>, a rejected
  \<open>fetch\<close> or \<open>json()\<close> throws its own error, and a parsed body is stored. Nothing on the
  success path clears \<open>isAnalyzing\<close>.
\<close>

definition catch_block :: "string \<Rightarrow> wizard \<Rightarrow> wizard" where
  "catch_block err st =
     st\<lparr>console := console st @ [''Analysis error: '' @ err],
        error := Some ''Failed to analyze case. Please try again.'',
        isAnalyzing := False\<rparr>"

fun settle :: "outcome \<Rightarrow> wizard \<Rightarrow> wizard" where
  "settle (Rejected err) st = catch_block err st"
| "settle (Responded False b) st = catch_block ''Error: Analysis failed'' st"
| "settle (Responded True (NotJson err)) st = catch_block err st"
| "settle (Responded True (Json result)) st = st\<lparr>analysisResult := Some result\<rparr>"

subsection \<open>Handlers\<close>

text \<open>
  The callback of the auto-advance timer, on the values it closed over.
\<close>

definition timer_callback :: "timer \<Rightarrow> wizard \<Rightarrow> wizard" where
  "timer_callback t st =
     (if t_currentQuestion t < length QUESTIONS - 1
      then st\<lparr>currentQuestion := t_currentQuestion t + 1\<rparr>
      else submitCaseWithAnswer
             (AList.update (qid (t_question t)) (Single (t_value t)) (t_answers t)) st)"

text \<open>
  \<open>handleSelect\<close>. On the multi-select question \<open>current\<close> is
  \<open>answers[question.id] || []\<close>; an absent key and an empty string are falsy. A stored
  string would make \<open>current.includes\<close> a substring test, \<open>current.filter\<close> a TypeError
  (the handler stops, nothing is set) and the spread a list of its characters. On a
  single-select question the answer is stored and the timer is scheduled.
\<close>

definition handleSelect :: "string \<Rightarrow> wizard \<Rightarrow> wizard" where
  "handleSelect v st =
     (case question st of
        None \<Rightarrow> st
      | Some q \<Rightarrow>
          if qtype q = Multiselect then
            (case (case map_of (answers st) (qid q) of
                     None \<Rightarrow> Multi []
                   | Some (Single s) \<Rightarrow> if s = [] then Multi [] else Single s
                   | Some (Multi vs) \<Rightarrow> Multi vs) of
               Multi current \<Rightarrow>
                 if v \<in> set current
                 then st\<lparr>answers :=
                        AList.update (qid q) (Multi (filter (\<lambda>x. x \<noteq> v) current)) (answers st)\<rparr>
                 else st\<lparr>answers := AList.update (qid q) (Multi (current @ [v])) (answers st)\<rparr>
             | Single s \<Rightarrow>
                 if includes_str s v then st
                 else st\<lparr>answers :=
                        AList.update (qid q) (Multi (map (\<lambda>c. [c]) s @ [v])) (answers st)\<rparr>)
          else
            st\<lparr>answers := AList.update (qid q) (Single v) (answers st),
               timers := (nextTimer st,
                  \<lparr>t_currentQuestion = currentQuestion st, t_answers = answers st,
                   t_question = q, t_value = v\<rparr>) # timers st,
               nextTimer := nextTimer st + 1\<rparr>)"

text \<open>
  \<open>canProceed\<close>: \<open>(answers[question.id] || []).length > 0\<close> on the multi-select
  question, \<open>!!answers[question.id]\<close> otherwise.
\<close>

definition canProceed :: "wizard \<Rightarrow> bool" where
  "canProceed st =
     (case question st of
        None \<Rightarrow> False
      | Some q \<Rightarrow>
          if qtype q = Multiselect then
            (case map_of (answers st) (qid q) of
               None \<Rightarrow> False
             | Some (Single s) \<Rightarrow> s \<noteq> []
             | Some (Multi vs) \<Rightarrow> vs \<noteq> [])
          else
            (case map_of (answers st) (qid q) of
               None \<Rightarrow> False
             | Some (Single s) \<Rightarrow> s \<noteq> []
             | Some (Multi vs) \<Rightarrow> True))"

definition handleNext :: "wizard \<Rightarrow> wizard" where
  "handleNext st =
     (if currentQuestion st < length QUESTIONS - 1
      then st\<lparr>currentQuestion := currentQuestion st + 1\<rparr>
      else submitCase st)"

definition handleBack :: "wizard \<Rightarrow> wizard" where
  "handleBack st =
     (if currentQuestion st > 0
      then st\<lparr>currentQuestion := currentQuestion st - 1\<rparr>
      else st\<lparr>navigated := navigated st @ [''/home'']\<rparr>)"

text \<open>
  The inline handlers of the buttons Start New Case and Return Home of the results view.
\<close>

definition startNewCase :: "wizard \<Rightarrow> wizard" where
  "startNewCase st = st\<lparr>analysisResult := None, currentQuestion := 0, answers := []\<rparr>"

definition returnHome :: "wizard \<Rightarrow> wizard" where
  "returnHome st = st\<lparr>navigated := navigated st @ [''/home'']\<rparr>"

subsection \<open>Rendering and events\<close>

text \<open>
  Which of the three returns of the component is taken: the results view when
  \<open>analysisResult\<close> is set, else the loading view when \<open>isAnalyzing\<close>, else the question
  form, which shows the current question and the error message, if any. The form reads
  \<open>question.part\<close>, so without a question the render throws.
\<close>

datatype view = Results analysis | Loading | Form question "string option" | Crashed

definition render :: "wizard \<Rightarrow> view" where
  "render st =
     (case analysisResult st of
        Some r \<Rightarrow> Results r
      | None \<Rightarrow>
          if isAnalyzing st then Loading
          else (case question st of None \<Rightarrow> Crashed | Some q \<Rightarrow> Form q (error st)))"

text \<open>
  The events the component reacts to. A click reaches its handler only where the view
  renders the control: an option button of the current question, Next unless disabled by
  \<open>canProceed\<close>, Back; Start New Case, Return Home and the report download on the results
  view. A pending timer may fire and an outstanding request may settle at any time. Firing
  removes the timer; nothing else does, the source never calls \<open>clearTimeout\<close>. The delay
  of 100 ms is not modelled: time is the order of events.
\<close>

datatype event =
    Click_option string
  | Click_next
  | Click_back
  | Click_start_new
  | Click_return_home
  | Click_download
  | Timer_fires nat
  | Fetch_settles outcome

fun step :: "event \<Rightarrow> wizard \<Rightarrow> wizard" where
  "step (Click_option v) st =
     (case render st of
        Form q e \<Rightarrow> if v \<in> set (options q) then handleSelect v st else st
      | _ \<Rightarrow> st)"
| "step Click_next st =
     (case render st of Form q e \<Rightarrow> if canProceed st then handleNext st else st | _ \<Rightarrow> st)"
| "step Click_back st = (case render st of Form q e \<Rightarrow> handleBack st | _ \<Rightarrow> st)"
| "step Click_start_new st = (case render st of Results r \<Rightarrow> startNewCase st | _ \<Rightarrow> st)"
| "step Click_return_home st = (case render st of Results r \<Rightarrow> returnHome st | _ \<Rightarrow> st)"
| "step Click_download st = st"
| "step (Timer_fires i) st =
     (case map_of (timers st) i of
        None \<Rightarrow> st
      | Some t \<Rightarrow> timer_callback t (st\<lparr>timers := AList.delete i (timers st)\<rparr>))"
| "step (Fetch_settles out) st =
     (if pending st > 0 then settle out (st\<lparr>pending := pending st - 1\<rparr>) else st)"

fun run :: "event list \<Rightarrow> wizard \<Rightarrow> wizard" where
  "run [] st = st"
| "run (e # es) st = run es (step e st)"

text \<open>
  The submission phase of the specification, read off the state cells in the order in
  which the render tests them.
\<close>

datatype phase = Editing | Submitting | Succeeded | Failed

definition phase :: "wizard \<Rightarrow> phase" where
  "phase st =
     (if analysisResult st \<noteq> None then Succeeded
      else if isAnalyzing st then Submitting
      else if error st \<noteq> None then Failed
      else Editing)"

subsection \<open>What the user did, and what the answer map may hold\<close>

text \<open>
  \<open>selected_ids evs st\<close> collects the ids of the questions on which a click on an
  option was handled while \<open>evs\<close> ran from \<open>st\<close>. \<open>answers_typed\<close> relates every
  stored answer to its question: a string from the options for a single-select question, a
  duplicate-free list of options for the multi-select one.
\<close>

fun selected_ids :: "event list \<Rightarrow> wizard \<Rightarrow> string set" where
  "selected_ids [] st = {}"
| "selected_ids (e # es) st =
     (case e of
        Click_option v \<Rightarrow>
          (case render st of
             Form q err \<Rightarrow> if v \<in> set (options q) then {qid q} else {}
           | _ \<Rightarrow> {})
      | _ \<Rightarrow> {}) \<union> selected_ids es (step e st)"

definition answers_typed :: "wizard \<Rightarrow> bool" where
  "answers_typed st \<longleftrightarrow>
     (\<forall>(k, a) \<in> set (answers st). \<exists>q \<in> set QUESTIONS. qid q = k \<and>
        (case a of
           Single v \<Rightarrow> qtype q = Select \<and> v \<in> set (options q)
         | Multi vs \<Rightarrow> qtype q = Multiselect \<and> distinct vs \<and> set vs \<subseteq> set (options q)))"

subsection \<open>A user who answers every question in turn\<close>

text \<open>
  \<open>answer_question v\<close>: the user clicks the option \<open>v\<close> of the current question; on a
  single-select question the timer of that click then fires, on the multi-select question
  the user clicks Next. \<open>stored q v\<close> is the entry this leaves in the answer map, and
  \<open>at_question k vs\<close> describes the wizard after the answers \<open>vs\<close> to the first \<open>k\<close>
  questions.
\<close>

definition answer_question :: "string \<Rightarrow> wizard \<Rightarrow> wizard" where
  "answer_question v st =
     (case question st of
        None \<Rightarrow> st
      | Some q \<Rightarrow>
          if qtype q = Multiselect then step Click_next (step (Click_option v) st)
          else step (Timer_fires (nextTimer st)) (step (Click_option v) st))"

definition answer_all :: "string list \<Rightarrow> wizard \<Rightarrow> wizard" where
  "answer_all vs st = fold answer_question vs st"

definition stored :: "question \<Rightarrow> string \<Rightarrow> string \<times> answer" where
  "stored q v = (qid q, if qtype q = Multiselect then Multi [v] else Single v)"

definition at_question :: "nat \<Rightarrow> string list \<Rightarrow> wizard \<Rightarrow> bool" where
  "at_question k vs st \<longleftrightarrow>
     currentQuestion st = k \<and> analysisResult st = None \<and> \<not> isAnalyzing st \<and>
     error st = None \<and> answers st = map2 stored (take k QUESTIONS) vs \<and>
     timers st = [] \<and> requests st = [] \<and> pending st = 0"

subsection \<open>Sample data\<close>

text \<open>An analysis result and a run of the wizard, used to instantiate the theorems below.\<close>

definition sample_analysis :: analysis where
  "sample_analysis =
     \<lparr>case_analysis = \<lparr>summary = ''Encroachment by a neighbour on agricultural land'',
        severity_tier = Tier_string ''Level 8'', legal_category = ''Civil - Property'',
        limitation_status = ''Within limitation'', risk_warning = None\<rparr>,
      official_portal_links = [\<lparr>link_name = ''e-Courts'', url = ''https://ecourts.gov.in'',
        purpose = ''Case status''\<rparr>],
      smart_document_checklist =
        [\<lparr>document = ''7/12 Extract'', source = ''Talathi office'',
          urgency = ''High priority, immediate''\<rparr>,
         \<lparr>document = ''Sale deed'', source = ''Sub-registrar office'',
          urgency = ''Immediate action''\<rparr>,
         \<lparr>document = ''Tax receipts'', source = ''Municipal office'',
          urgency = ''Medium term''\<rparr>],
      immediate_next_steps = [''1. File a complaint'', ''Talk to a lawyer''],
      recommended_service = \<lparr>product_name = ''Legal notice'', price_point = ''Rs 999'',
        cta_text = ''Get started''\<rparr>\<rparr>"

definition first_eleven :: "event list" where
  "first_eleven =
     [Click_option ''Delhi'', Timer_fires 0,
      Click_option ''Apartment/Flat'', Timer_fires 1,
      Click_option ''We share possession'', Timer_fires 2,
      Click_option ''Tenant'', Timer_fires 3,
      Click_option ''Tenant is refusing to vacate or pay rent'', Timer_fires 4,
      Click_option ''Don't Know'', Timer_fires 5,
      Click_option ''My name'', Timer_fires 6,
      Click_option ''Will'', Click_option ''Recent Tax Receipt'', Click_next,
      Click_option ''No legal action yet'', Timer_fires 7,
      Click_option ''No immediate threat'', Timer_fires 8,
      Click_option ''3-12 years ago'', Timer_fires 9]"

definition all_twelve :: "event list" where
  "all_twelve = first_eleven @ [Click_option ''I want to sell and exit'', Timer_fires 10]"

definition twelve_answers :: "string list" where
  "twelve_answers = [''Delhi'', ''Apartment/Flat'', ''We share possession'', ''Tenant'',
     ''Tenant is refusing to vacate or pay rent'', ''Don't Know'', ''My name'', ''Will'',
     ''No legal action yet'', ''No immediate threat'', ''3-12 years ago'',
     ''I want to sell and exit'']"

section \<open>Strings and the severity pattern\<close>

lemma startsWith_iff: "startsWith s n \<longleftrightarrow> (\<exists>r. s = n @ r)"
  by (induction s n rule: startsWith.induct) auto

lemma includes_str_iff: "includes_str s n \<longleftrightarrow> (\<exists>p r. s = p @ n @ r)"
proof (induction s)
  case Nil
  show ?case by auto
next
  case (Cons c s)
  show ?case
  proof
    assume "includes_str (c # s) n"
    then consider "startsWith (c # s) n" | "includes_str s n" by auto
    then show "\<exists>p r. c # s = p @ n @ r"
    proof cases
      case 1
      then obtain r where "c # s = n @ r" by (auto simp: startsWith_iff)
      then have "c # s = [] @ n @ r" by simp
      then show ?thesis by blast
    next
      case 2
      then obtain p r where "s = p @ n @ r" using Cons.IH by blast
      then have "c # s = (c # p) @ n @ r" by simp
      then show ?thesis by blast
    qed
  next
    assume "\<exists>p r. c # s = p @ n @ r"
    then obtain p r where e: "c # s = p @ n @ r" by blast
    show "includes_str (c # s) n"
    proof (cases p)
      case Nil
      with e have "startsWith (c # s) n" unfolding startsWith_iff by auto
      then show ?thesis by simp
    next
      case (Cons d p')
      with e have "s = p' @ n @ r" by simp
      then have "includes_str s n" using Cons.IH by blast
      then show ?thesis by simp
    qed
  qed
qed

lemma map_eq_appendE:
  assumes "map f u = p @ q"
  obtains a b where "u = a @ b" "map f a = p" "map f b = q"
proof
  show "u = take (length p) u @ drop (length p) u" by simp
  show "map f (take (length p) u) = p" using assms by (simp flip: take_map)
  show "map f (drop (length p) u) = q" using assms by (simp flip: drop_map)
qed

lemma includes_lower_iff:
  "includes_str (toLowerCase u) n \<longleftrightarrow> (\<exists>p w r. u = p @ w @ r \<and> toLowerCase w = n)"
  unfolding includes_str_iff toLowerCase_def
proof
  assume "\<exists>p r. map toLowerCase_char u = p @ n @ r"
  then obtain p r where "map toLowerCase_char u = p @ n @ r" by blast
  then obtain p' x where u1: "u = p' @ x" and x: "map toLowerCase_char x = n @ r"
    by (rule map_eq_appendE)
  from x obtain w r' where "x = w @ r'" and "map toLowerCase_char w = n"
    by (rule map_eq_appendE)
  with u1 show "\<exists>p w r. u = p @ w @ r \<and> map toLowerCase_char w = n" by blast
next
  assume "\<exists>p w r. u = p @ w @ r \<and> map toLowerCase_char w = n"
  then obtain p w r where "u = p @ w @ r" "map toLowerCase_char w = n" by blast
  then have "map toLowerCase_char u = map toLowerCase_char p @ n @ map toLowerCase_char r"
    by simp
  then show "\<exists>p r. map toLowerCase_char u = p @ n @ r" by blast
qed

lemma char_of_digits:
  "char_of (48::nat) = CHR ''0''" "char_of (49::nat) = CHR ''1''" "char_of (50::nat) = CHR ''2''"
  "char_of (51::nat) = CHR ''3''" "char_of (52::nat) = CHR ''4''" "char_of (53::nat) = CHR ''5''"
  "char_of (54::nat) = CHR ''6''" "char_of (55::nat) = CHR ''7''" "char_of (56::nat) = CHR ''8''"
  "char_of (57::nat) = CHR ''9''"
  by (simp_all add: char_of_def bit_Suc_0_iff)

lemma is_digit_iff: "is_digit c \<longleftrightarrow> c \<in> set ''0123456789''"
proof
  assume "is_digit c"
  then have "(of_char c :: nat) \<in> {48, 49, 50, 51, 52, 53, 54, 55, 56, 57}"
    unfolding is_digit_def Let_def by simp arith
  then have "char_of (of_char c :: nat) \<in> char_of ` {48::nat, 49, 50, 51, 52, 53, 54, 55, 56, 57}"
    by (rule imageI)
  then show "c \<in> set ''0123456789''" by (simp add: char_of_digits)
next
  assume "c \<in> set ''0123456789''"
  then show "is_digit c" by (auto simp: is_digit_def)
qed

lemma digit_char: "is_digit c \<Longrightarrow> c = char_of (48 + digit_value c) \<and> digit_value c < 10"
  by (auto simp: is_digit_def digit_value_def Let_def)

lemma is_digit_char_of: "k < 10 \<Longrightarrow> is_digit (char_of (48 + k :: nat))"
  by (simp add: is_digit_def of_char_of)

lemma digit_value_char_of: "k < 10 \<Longrightarrow> digit_value (char_of (48 + k :: nat)) = k"
  by (simp add: digit_value_def of_char_of)

lemma decimal_digits: "c \<in> set (decimal n) \<Longrightarrow> is_digit c"
proof (induction n arbitrary: c rule: decimal.induct)
  case (1 n)
  show ?case
  proof (cases "n < 10")
    case True
    with "1.prems" show ?thesis by (simp add: decimal.simps [of n] is_digit_char_of)
  next
    case False
    with "1.prems" "1.IH" show ?thesis
      by (auto simp: decimal.simps [of n] is_digit_char_of)
  qed
qed

lemma decimal_not_Nil: "decimal n \<noteq> []"
  by (simp add: decimal.simps [of n])

lemma digits_value_snoc: "digits_value (ds @ [c]) = 10 * digits_value ds + digit_value c"
  by (simp add: digits_value_def)

lemma digits_value_decimal: "digits_value (decimal n) = n"
proof (induction n rule: decimal.induct)
  case (1 n)
  show ?case
  proof (cases "n < 10")
    case True
    then show ?thesis by (simp add: decimal.simps [of n] digits_value_def digit_value_char_of)
  next
    case False
    with "1.IH" show ?thesis
      by (simp add: decimal.simps [of n] digits_value_snoc digit_value_char_of)
  qed
qed

lemma digits_value_zeros: "digits_value (replicate z CHR ''0'' @ ds) = digits_value ds"
proof (induction z)
  case 0
  show ?case by simp
next
  case (Suc z)
  have "digits_value (CHR ''0'' # xs) = digits_value xs" for xs
    by (simp add: digits_value_def digit_value_def)
  with Suc show ?case by simp
qed

lemma decimal_snoc:
  assumes "0 < m" "k < 10"
  shows "decimal (10 * m + k) = decimal m @ [char_of (48 + k)]"
  using assms by (subst decimal.simps) simp

lemma decimal_small: "k < 10 \<Longrightarrow> decimal k = [char_of (48 + k)]"
  by (subst decimal.simps) simp

lemma digits_shape:
  assumes "ds \<noteq> []" "\<forall>c\<in>set ds. is_digit c"
  shows "\<exists>z n. ds = replicate z CHR ''0'' @ decimal n"
  using assms
proof (induction ds rule: rev_induct)
  case Nil
  then show ?case by simp
next
  case (snoc c ds)
  from snoc.prems have "is_digit c" by simp
  then have c: "c = char_of (48 + digit_value c)" and k: "digit_value c < 10"
    using digit_char by blast+
  show ?case
  proof (cases "ds = []")
    case True
    then have "ds @ [c] = replicate 0 CHR ''0'' @ decimal (digit_value c)"
      using c decimal_small [OF k] by simp
    then show ?thesis by blast
  next
    case False
    with snoc obtain z m where ds: "ds = replicate z CHR ''0'' @ decimal m" by auto
    show ?thesis
    proof (cases "m = 0")
      case True
      have "decimal 0 = [CHR ''0'']" by (simp add: decimal_small char_of_digits)
      with ds True have "ds = replicate (Suc z) CHR ''0''"
        by (simp add: replicate_append_same)
      then have "ds @ [c] = replicate (Suc z) CHR ''0'' @ decimal (digit_value c)"
        using c decimal_small [OF k] by simp
      then show ?thesis by blast
    next
      case False
      then have "decimal (10 * m + digit_value c) = decimal m @ [c]"
        using decimal_snoc [of m "digit_value c"] k c by simp
      with ds have "ds @ [c] = replicate z CHR ''0'' @ decimal (10 * m + digit_value c)"
        by simp
      then show ?thesis by blast
    qed
  qed
qed

lemma match_here_Some_iff:
  "match_here s = Some ds \<longleftrightarrow>
     (\<exists>r. s = ''Level '' @ ds @ r \<and> ds \<noteq> [] \<and> (\<forall>c\<in>set ds. is_digit c) \<and>
          (r = [] \<or> \<not> is_digit (hd r)))"
proof
  assume m: "match_here s = Some ds"
  then have sw: "startsWith s ''Level ''" and ne: "takeWhile is_digit (drop 6 s) \<noteq> []"
    and ds: "ds = takeWhile is_digit (drop 6 s)"
    by (auto simp: match_here_def split: if_splits)
  from sw obtain t where t: "s = ''Level '' @ t" unfolding startsWith_iff by blast
  then have d6: "drop 6 s = t" by simp
  have "t = ds @ dropWhile is_digit t" using ds d6 by simp
  moreover have "dropWhile is_digit t = [] \<or> \<not> is_digit (hd (dropWhile is_digit t))"
    using hd_dropWhile [of is_digit t] by blast
  moreover have "\<forall>c\<in>set ds. is_digit c" using ds by (auto dest: set_takeWhileD)
  ultimately show "\<exists>r. s = ''Level '' @ ds @ r \<and> ds \<noteq> [] \<and> (\<forall>c\<in>set ds. is_digit c) \<and>
          (r = [] \<or> \<not> is_digit (hd r))"
    using t ne ds by (metis)
next
  assume "\<exists>r. s = ''Level '' @ ds @ r \<and> ds \<noteq> [] \<and> (\<forall>c\<in>set ds. is_digit c) \<and>
          (r = [] \<or> \<not> is_digit (hd r))"
  then obtain r where s: "s = ''Level '' @ ds @ r" and ne: "ds \<noteq> []"
    and dg: "\<forall>c\<in>set ds. is_digit c" and r: "r = [] \<or> \<not> is_digit (hd r)" by blast
  from s have sw: "startsWith s ''Level ''" unfolding startsWith_iff by blast
  from s have d6: "drop 6 s = ds @ r" by simp
  from r have "takeWhile is_digit r = []" by (cases r) auto
  with dg have "takeWhile is_digit (ds @ r) = ds" by (simp add: takeWhile_append2)
  with sw d6 ne show "match_here s = Some ds" by (simp add: match_here_def)
qed

lemma match_here_None_iff:
  "match_here s = None \<longleftrightarrow> \<not> (\<exists>d r. s = ''Level '' @ d # r \<and> is_digit d)"
proof
  assume n: "match_here s = None"
  show "\<not> (\<exists>d r. s = ''Level '' @ d # r \<and> is_digit d)"
  proof
    assume "\<exists>d r. s = ''Level '' @ d # r \<and> is_digit d"
    then obtain d r where s: "s = ''Level '' @ d # r" and d: "is_digit d" by blast
    from s have "startsWith s ''Level ''" unfolding startsWith_iff by blast
    moreover from s d have "takeWhile is_digit (drop 6 s) \<noteq> []" by simp
    ultimately show False using n by (simp add: match_here_def)
  qed
next
  assume a: "\<not> (\<exists>d r. s = ''Level '' @ d # r \<and> is_digit d)"
  show "match_here s = None"
  proof (rule ccontr)
    assume "match_here s \<noteq> None"
    then obtain ds where "match_here s = Some ds" by blast
    then obtain r where "s = ''Level '' @ ds @ r" "ds \<noteq> []" "\<forall>c\<in>set ds. is_digit c"
      unfolding match_here_Some_iff by blast
    then have "s = ''Level '' @ hd ds # (tl ds @ r) \<and> is_digit (hd ds)"
      by (cases ds) auto
    with a show False by blast
  qed
qed

lemma match_Level_None_iff:
  "match_Level s = None \<longleftrightarrow> \<not> (\<exists>p d r. s = p @ ''Level '' @ d # r \<and> is_digit d)"
proof (induction s)
  case Nil
  show ?case by simp
next
  case (Cons c s)
  have "match_Level (c # s) = None \<longleftrightarrow> match_here (c # s) = None \<and> match_Level s = None"
    by (simp split: option.splits)
  also have "\<dots> \<longleftrightarrow> \<not> (\<exists>d r. c # s = ''Level '' @ d # r \<and> is_digit d) \<and>
                      \<not> (\<exists>p d r. s = p @ ''Level '' @ d # r \<and> is_digit d)"
    unfolding match_here_None_iff Cons.IH ..
  also have "\<dots> \<longleftrightarrow> \<not> (\<exists>p d r. c # s = p @ ''Level '' @ d # r \<and> is_digit d)"
  proof -
    have "(\<exists>p d r. c # s = p @ ''Level '' @ d # r \<and> is_digit d) \<longleftrightarrow>
          (\<exists>d r. c # s = ''Level '' @ d # r \<and> is_digit d) \<or>
          (\<exists>p d r. s = p @ ''Level '' @ d # r \<and> is_digit d)" (is "?L \<longleftrightarrow> ?A \<or> ?B")
    proof
      assume ?L
      then obtain p d r where e: "c # s = p @ ''Level '' @ d # r" and d: "is_digit d" by blast
      show "?A \<or> ?B"
      proof (cases p)
        case Nil
        with e d have ?A by auto
        then show ?thesis ..
      next
        case (Cons x p')
        with e have "s = p' @ ''Level '' @ d # r" by simp
        with d have ?B by blast
        then show ?thesis ..
      qed
    next
      assume "?A \<or> ?B"
      then show ?L
      proof
        assume ?A
        then obtain d r where "c # s = [] @ ''Level '' @ d # r" "is_digit d" by auto
        then show ?L by blast
      next
        assume ?B
        then obtain p d r where "s = p @ ''Level '' @ d # r" "is_digit d" by blast
        then have "c # s = (c # p) @ ''Level '' @ d # r" "is_digit d" by simp_all
        then show ?L by blast
      qed
    qed
    then show ?thesis by blast
  qed
  finally show ?case .
qed

lemma match_here_None_take:
  "match_here s = None \<longleftrightarrow> \<not> (take 6 s = ''Level '' \<and> 6 < length s \<and> is_digit (s ! 6))"
proof -
  have "(\<exists>d r. s = ''Level '' @ d # r \<and> is_digit d) \<longleftrightarrow>
        (take 6 s = ''Level '' \<and> 6 < length s \<and> is_digit (s ! 6))" (is "?A \<longleftrightarrow> ?B")
  proof
    assume ?A
    then obtain d r where "s = ''Level '' @ d # r" "is_digit d" by blast
    then show ?B by simp
  next
    assume b: ?B
    have "s = take 6 s @ drop 6 s" by (rule append_take_drop_id [symmetric])
    moreover from b have "drop 6 s = s ! 6 # drop 7 s"
      using Cons_nth_drop_Suc [of 6 s] by simp
    ultimately have "s = ''Level '' @ s ! 6 # drop 7 s" using b by metis
    with b show ?A by blast
  qed
  then show ?thesis unfolding match_here_None_iff by simp
qed

lemma match_here_append:
  "7 \<le> length x \<Longrightarrow> match_here (x @ y) = None \<longleftrightarrow> match_here x = None"
  unfolding match_here_None_take by (simp add: nth_append)

lemma match_Level_leftmost:
  assumes "match_Level (p @ ''Level '') = None" "ds \<noteq> []" "\<forall>c\<in>set ds. is_digit c"
    "r = [] \<or> \<not> is_digit (hd r)"
  shows "match_Level (p @ ''Level '' @ ds @ r) = Some ds"
  using assms(1)
proof (induction p)
  case Nil
  have "match_here (''Level '' @ ds @ r) = Some ds"
    unfolding match_here_Some_iff using assms(2-4) by blast
  then show ?case by simp
next
  case (Cons c p)
  from Cons.prems have h: "match_here ((c # p @ ''Level '') @ []) = None"
    and t: "match_Level (p @ ''Level '') = None"
    by (simp_all split: option.splits)
  have "match_here ((c # p @ ''Level '') @ ds @ r) = None"
    using h by (subst match_here_append) simp_all
  then have "match_here (c # p @ ''Level '' @ ds @ r) = None" by simp
  moreover have "match_Level (p @ ''Level '' @ ds @ r) = Some ds" using Cons.IH t .
  ultimately show ?case by simp
qed

lemma match_Level_SomeD:
  "match_Level s = Some ds \<Longrightarrow>
     \<exists>p r. s = p @ ''Level '' @ ds @ r \<and> ds \<noteq> [] \<and> (\<forall>c\<in>set ds. is_digit c) \<and>
           (r = [] \<or> \<not> is_digit (hd r)) \<and> match_Level (p @ ''Level '') = None"
proof (induction s)
  case Nil
  then show ?case by simp
next
  case (Cons c s)
  show ?case
  proof (cases "match_here (c # s)")
    case (Some ds')
    with Cons.prems have "ds' = ds" by simp
    with Some obtain r where "c # s = [] @ ''Level '' @ ds @ r" "ds \<noteq> []"
      "\<forall>c\<in>set ds. is_digit c" "r = [] \<or> \<not> is_digit (hd r)"
      unfolding match_here_Some_iff by auto
    moreover have "match_Level ([] @ ''Level '') = None" by (simp add: match_here_def)
    ultimately show ?thesis by blast
  next
    case None
    with Cons.prems have "match_Level s = Some ds" by simp
    then obtain p r where s: "s = p @ ''Level '' @ ds @ r" and rest: "ds \<noteq> []"
      "\<forall>c\<in>set ds. is_digit c" "r = [] \<or> \<not> is_digit (hd r)"
      and lm: "match_Level (p @ ''Level '') = None"
      using Cons.IH by blast
    from None s have "match_here ((c # p @ ''Level '') @ ds @ r) = None" by simp
    then have "match_here (c # p @ ''Level '') = None"
      by (subst (asm) match_here_append) simp_all
    with lm have "match_Level ((c # p) @ ''Level '') = None" by simp
    moreover from s have "c # s = (c # p) @ ''Level '' @ ds @ r" by simp
    ultimately show ?thesis using rest by blast
  qed
qed

lemma no_match_iff:
  "match_Level s = None \<longleftrightarrow>
     \<not> (\<exists>p d r. s = p @ ''Level '' @ d # r \<and> d \<in> set ''0123456789'')"
  unfolding match_Level_None_iff is_digit_iff ..

lemma severityLevel_pattern:
  assumes "\<not> (\<exists>p' d r'. p @ ''Level '' = p' @ ''Level '' @ d # r' \<and> d \<in> set ''0123456789'')"
    and "r = [] \<or> hd r \<notin> set ''0123456789''"
  shows "severityLevel (Tier_string (p @ ''Level '' @ replicate z CHR ''0'' @ decimal n @ r)) =
     Inr (if n \<le> 9007199254740992 then Exact n else Beyond)"
proof -
  let ?ds = "replicate z CHR ''0'' @ decimal n"
  from assms(1) have nm: "match_Level (p @ ''Level '') = None" unfolding no_match_iff .
  from assms(2) have r: "r = [] \<or> \<not> is_digit (hd r)" unfolding is_digit_iff .
  have "is_digit CHR ''0''" by (simp add: is_digit_def)
  then have dg: "\<forall>c\<in>set ?ds. is_digit c" using decimal_digits by auto
  have ne: "?ds \<noteq> []" using decimal_not_Nil by simp
  have "match_Level (p @ ''Level '' @ ?ds @ r) = Some ?ds"
    using nm ne dg r by (rule match_Level_leftmost)
  then have "severityLevel (Tier_string (p @ ''Level '' @ ?ds @ r)) = Inr (parseInt ?ds)"
    by (simp add: severityLevel_def)
  moreover have "digits_value ?ds = n" by (simp add: digits_value_zeros digits_value_decimal)
  ultimately show ?thesis by (simp add: parseInt_def)
qed

lemma severityLevel_no_pattern:
  assumes "\<not> (\<exists>p d r. s = p @ ''Level '' @ d # r \<and> d \<in> set ''0123456789'')"
  shows "severityLevel (Tier_string s) = Inr (Exact 5)"
proof -
  from assms have "match_Level s = None" unfolding no_match_iff .
  then show ?thesis by (simp add: severityLevel_def)
qed

lemma pattern_shape:
  assumes "\<exists>p d r. s = p @ ''Level '' @ d # r \<and> d \<in> set ''0123456789''"
  shows "\<exists>p z n r. s = p @ ''Level '' @ replicate z CHR ''0'' @ decimal n @ r \<and>
     \<not> (\<exists>p' d r'. p @ ''Level '' = p' @ ''Level '' @ d # r' \<and> d \<in> set ''0123456789'') \<and>
     (r = [] \<or> hd r \<notin> set ''0123456789'')"
proof -
  from assms have "match_Level s \<noteq> None" unfolding no_match_iff by blast
  then obtain ds where "match_Level s = Some ds" by blast
  from match_Level_SomeD [OF this] obtain p r where s: "s = p @ ''Level '' @ ds @ r"
    and ne: "ds \<noteq> []" and dg: "\<forall>c\<in>set ds. is_digit c"
    and r: "r = [] \<or> \<not> is_digit (hd r)" and nm: "match_Level (p @ ''Level '') = None"
    by blast
  from digits_shape [OF ne dg] obtain z n where ds: "ds = replicate z CHR ''0'' @ decimal n"
    by blast
  from nm have 1: "\<not> (\<exists>p' d r'. p @ ''Level '' = p' @ ''Level '' @ d # r' \<and> d \<in> set ''0123456789'')"
    unfolding no_match_iff .
  from r have 2: "r = [] \<or> hd r \<notin> set ''0123456789''" unfolding is_digit_iff .
  from s ds have "s = p @ ''Level '' @ replicate z CHR ''0'' @ decimal n @ r" by simp
  with 1 2 show ?thesis by blast
qed

lemma badge_of_level:
  "view_severity_badge (ca\<lparr>severity_tier := t\<rparr>) =
     (case severityLevel t of
        Inl e \<Rightarrow> Inl e
      | Inr level \<Rightarrow>
          Inr (''severity-badge severity-'' @
            (if number_ge level 8 then ''critical''
             else if number_ge level 6 then ''high'' else ''moderate'')))"
  by (simp add: view_severity_badge_def)

lemma severityLevel_examples:
  "severityLevel (Tier_string ''Level 9'') = Inr (Exact 9)"
  "severityLevel (Tier_string ''Level 7'') = Inr (Exact 7)"
  "severityLevel (Tier_string ''Level 3'') = Inr (Exact 3)"
  "severityLevel (Tier_string ''Unclassified'') = Inr (Exact 5)"
  "severityLevel (Tier_string ''Level 08'') = Inr (Exact 8)"
  "severityLevel (Tier_string ''Level 10'') = Inr (Exact 10)"
  "severityLevel (Tier_string ''Level 8'') = Inr (Exact 8)"
  "severityLevel (Tier_string ''Level 9007199254740993'') = Inr Beyond"
  by (simp_all add: severityLevel_def match_here_def is_digit_def parseInt_def digits_value_def
      digit_value_def)

text \<open>
  Claim C2. Every tier string either holds no \<open>Level \<close> followed by a digit, and then the
  level is the default 5 and the badge moderate, or it reads \<open>Level \<close>, leading zeros and
  the decimal numeral of some \<open>N\<close> at the leftmost match, followed by something that is not
  a digit. Then the badge is critical from 8 on, high for 6 and 7, moderate below, for every
  \<open>N\<close>; the level is \<open>N\<close> itself up to \<open>2 ^ 53\<close> and a double beyond that above. The
  examples of the specification hold, and so do \<open>Level 08\<close> and a tier above \<open>2 ^ 53\<close>.
\<close>

theorem severity_classification:
  "(\<not> (\<exists>p' d r'. p @ ''Level '' = p' @ ''Level '' @ d # r' \<and> d \<in> set ''0123456789'') \<and>
    (r = [] \<or> hd r \<notin> set ''0123456789'') \<longrightarrow>
      severityLevel (Tier_string (p @ ''Level '' @ replicate z CHR ''0'' @ decimal n @ r)) =
        Inr (if n \<le> 9007199254740992 then Exact n else Beyond) \<and>
      view_severity_badge
          (ca\<lparr>severity_tier :=
             Tier_string (p @ ''Level '' @ replicate z CHR ''0'' @ decimal n @ r)\<rparr>) =
        Inr (''severity-badge severity-'' @
          (if 8 \<le> n then ''critical'' else if 6 \<le> n \<and> n < 8 then ''high''
           else ''moderate''))) \<and>
   ((\<exists>p d r. s = p @ ''Level '' @ d # r \<and> d \<in> set ''0123456789'') \<longrightarrow>
      (\<exists>p z n r. s = p @ ''Level '' @ replicate z CHR ''0'' @ decimal n @ r \<and>
         \<not> (\<exists>p' d r'. p @ ''Level '' = p' @ ''Level '' @ d # r' \<and> d \<in> set ''0123456789'') \<and>
         (r = [] \<or> hd r \<notin> set ''0123456789''))) \<and>
   (\<not> (\<exists>p d r. s = p @ ''Level '' @ d # r \<and> d \<in> set ''0123456789'') \<longrightarrow>
      severityLevel (Tier_string s) = Inr (Exact 5) \<and>
      view_severity_badge (ca\<lparr>severity_tier := Tier_string s\<rparr>) =
        Inr ''severity-badge severity-moderate'') \<and>
   view_severity_badge (ca\<lparr>severity_tier := Tier_string ''Level 9''\<rparr>) =
     Inr ''severity-badge severity-critical'' \<and>
   view_severity_badge (ca\<lparr>severity_tier := Tier_string ''Level 7''\<rparr>) =
     Inr ''severity-badge severity-high'' \<and>
   view_severity_badge (ca\<lparr>severity_tier := Tier_string ''Level 3''\<rparr>) =
     Inr ''severity-badge severity-moderate'' \<and>
   view_severity_badge (ca\<lparr>severity_tier := Tier_string ''Unclassified''\<rparr>) =
     Inr ''severity-badge severity-moderate'' \<and>
   view_severity_badge (ca\<lparr>severity_tier := Tier_string ''Level 08''\<rparr>) =
     Inr ''severity-badge severity-critical'' \<and>
   view_severity_badge (ca\<lparr>severity_tier := Tier_string ''Level 9007199254740993''\<rparr>) =
     Inr ''severity-badge severity-critical''"
proof -
  let ?A = "\<not> (\<exists>p' d r'. p @ ''Level '' = p' @ ''Level '' @ d # r' \<and> d \<in> set ''0123456789'') \<and>
        (r = [] \<or> hd r \<notin> set ''0123456789'')"
  let ?P = "\<exists>p d r. s = p @ ''Level '' @ d # r \<and> d \<in> set ''0123456789''"
  have 1: "?A \<longrightarrow>
      severityLevel (Tier_string (p @ ''Level '' @ replicate z CHR ''0'' @ decimal n @ r)) =
        Inr (if n \<le> 9007199254740992 then Exact n else Beyond) \<and>
      view_severity_badge
          (ca\<lparr>severity_tier :=
             Tier_string (p @ ''Level '' @ replicate z CHR ''0'' @ decimal n @ r)\<rparr>) =
        Inr (''severity-badge severity-'' @
          (if 8 \<le> n then ''critical'' else if 6 \<le> n \<and> n < 8 then ''high''
           else ''moderate''))"
  proof (rule impI)
    assume a: ?A
    from a have a1: "\<not> (\<exists>p' d r'. p @ ''Level '' = p' @ ''Level '' @ d # r' \<and>
        d \<in> set ''0123456789'')" by (rule conjunct1)
    from a have a2: "r = [] \<or> hd r \<notin> set ''0123456789''" by (rule conjunct2)
    have lv: "severityLevel
        (Tier_string (p @ ''Level '' @ replicate z CHR ''0'' @ decimal n @ r)) =
        Inr (if n \<le> 9007199254740992 then Exact n else Beyond)"
      using a1 a2 by (rule severityLevel_pattern)
    show "severityLevel (Tier_string (p @ ''Level '' @ replicate z CHR ''0'' @ decimal n @ r)) =
        Inr (if n \<le> 9007199254740992 then Exact n else Beyond) \<and>
      view_severity_badge
          (ca\<lparr>severity_tier :=
             Tier_string (p @ ''Level '' @ replicate z CHR ''0'' @ decimal n @ r)\<rparr>) =
        Inr (''severity-badge severity-'' @
          (if 8 \<le> n then ''critical'' else if 6 \<le> n \<and> n < 8 then ''high''
           else ''moderate''))"
      unfolding badge_of_level lv by simp
  qed
  have 2: "?P \<longrightarrow> (\<exists>p z n r. s = p @ ''Level '' @ replicate z CHR ''0'' @ decimal n @ r \<and>
         \<not> (\<exists>p' d r'. p @ ''Level '' = p' @ ''Level '' @ d # r' \<and> d \<in> set ''0123456789'') \<and>
         (r = [] \<or> hd r \<notin> set ''0123456789''))"
    by (rule impI) (rule pattern_shape)
  have 3: "\<not> ?P \<longrightarrow> severityLevel (Tier_string s) = Inr (Exact 5) \<and>
      view_severity_badge (ca\<lparr>severity_tier := Tier_string s\<rparr>) =
        Inr ''severity-badge severity-moderate''"
  proof (rule impI)
    assume a: "\<not> ?P"
    show "severityLevel (Tier_string s) = Inr (Exact 5) \<and>
      view_severity_badge (ca\<lparr>severity_tier := Tier_string s\<rparr>) =
        Inr ''severity-badge severity-moderate''"
      unfolding badge_of_level severityLevel_no_pattern [OF a] by simp
  qed
  have 4: "view_severity_badge (ca\<lparr>severity_tier := Tier_string ''Level 9''\<rparr>) =
     Inr ''severity-badge severity-critical''"
   "view_severity_badge (ca\<lparr>severity_tier := Tier_string ''Level 7''\<rparr>) =
     Inr ''severity-badge severity-high''"
   "view_severity_badge (ca\<lparr>severity_tier := Tier_string ''Level 3''\<rparr>) =
     Inr ''severity-badge severity-moderate''"
   "view_severity_badge (ca\<lparr>severity_tier := Tier_string ''Unclassified''\<rparr>) =
     Inr ''severity-badge severity-moderate''"
   "view_severity_badge (ca\<lparr>severity_tier := Tier_string ''Level 08''\<rparr>) =
     Inr ''severity-badge severity-critical''"
   "view_severity_badge (ca\<lparr>severity_tier := Tier_string ''Level 9007199254740993''\<rparr>) =
     Inr ''severity-badge severity-critical''"
    unfolding badge_of_level severityLevel_examples by simp_all
  show ?thesis by (intro conjI) (rule 1 2 3 4)+
qed

theorem severity_classification_witness:
  "severityLevel (Tier_string ''Level 008 (Critical)'') = Inr (Exact 8) \<and>
   view_severity_badge \<lparr>summary = ''Boundary dispute'',
      severity_tier = Tier_string ''Level 008 (Critical)'',
      legal_category = ''Civil'', limitation_status = ''Within time'', risk_warning = None\<rparr> =
     Inr ''severity-badge severity-critical'' \<and>
   (\<exists>p z n r. ''Tier: Level 42b'' = p @ ''Level '' @ replicate z CHR ''0'' @ decimal n @ r) \<and>
   severityLevel (Tier_string ''Severe'') = Inr (Exact 5)"
proof -
  let ?ca = "\<lparr>summary = ''Boundary dispute'', severity_tier = Tier_absent,
      legal_category = ''Civil'', limitation_status = ''Within time'', risk_warning = None\<rparr>"
  have d8: "decimal 8 = ''8''" by (simp add: decimal_small char_of_digits)
  have a: "\<not> (\<exists>p' d r'. [] @ ''Level '' = p' @ ''Level '' @ d # r' \<and> d \<in> set ''0123456789'')"
    unfolding no_match_iff [symmetric] by (simp add: match_here_def)
  have r1: "'' (Critical)'' = [] \<or> hd '' (Critical)'' \<notin> set ''0123456789''" by simp
  have b: "\<not> (\<exists>p d r. ''Severe'' = p @ ''Level '' @ d # r \<and> d \<in> set ''0123456789'')"
    unfolding no_match_iff [symmetric] by (simp add: match_here_def)
  have c: "\<exists>p d r. ''Tier: Level 42b'' = p @ ''Level '' @ d # r \<and> d \<in> set ''0123456789''"
  proof (intro exI conjI)
    show "''Tier: Level 42b'' = ''Tier: '' @ ''Level '' @ CHR ''4'' # ''2b''" by simp
    show "CHR ''4'' \<in> set ''0123456789''" by simp
  qed
  note t1 = severity_classification [of "[]" "'' (Critical)''" 2 8 ?ca "''Severe''",
      THEN conjunct1, THEN mp, OF conjI, OF a r1]
  note t2 = severity_classification [of "[]" "[]" 0 0 ?ca "''Tier: Level 42b''",
      THEN conjunct2, THEN conjunct1, THEN mp, OF c]
  note t3 = severity_classification [of "[]" "[]" 0 0 ?ca "''Severe''",
      THEN conjunct2, THEN conjunct2, THEN conjunct1, THEN mp, OF b]
  from t1 have 1: "severityLevel (Tier_string ''Level 008 (Critical)'') = Inr (Exact 8)"
    and 2: "view_severity_badge \<lparr>summary = ''Boundary dispute'',
      severity_tier = Tier_string ''Level 008 (Critical)'',
      legal_category = ''Civil'', limitation_status = ''Within time'', risk_warning = None\<rparr> =
     Inr ''severity-badge severity-critical''"
    by (simp_all add: d8 numeral_2_eq_2)
  from t2 have 3: "\<exists>p z n r. ''Tier: Level 42b'' = p @ ''Level '' @ replicate z CHR ''0'' @ decimal n @ r"
    by (elim exE conjE) (intro exI, assumption)
  from t3 have 4: "severityLevel (Tier_string ''Severe'') = Inr (Exact 5)" by (rule conjunct1)
  show ?thesis by (intro conjI) (rule 1 2 3 4)+
qed

text \<open>
  Claim C10 calls the parse total over malformed input. A tier that is present but not a
  string, such as the number 8, makes the render throw a TypeError.
\<close>

theorem severity_parse_throws_on_number:
  "severityLevel (Tier_number 8) = Inl TypeError \<and>
   view_severity_badge \<lparr>summary = ''Boundary dispute'', severity_tier = Tier_number 8,
      legal_category = ''Civil'', limitation_status = ''Within time'', risk_warning = None\<rparr> =
     Inl TypeError"
  by (simp add: severityLevel_def view_severity_badge_def)

text \<open>
  Claim C10, amended. On strings the parse is a search: it succeeds exactly when
  \<open>Level \<close> followed by a digit occurs somewhere in the tier; the level is then the value of
  the whole run of digits at the leftmost such place. Every other string, and an absent
  tier, takes the default 5 and is moderate. \<open>Level 10\<close> parses as 10 and is critical. A
  tier that is neither absent nor a string is not defaulted: the parse throws.
\<close>

theorem severity_parse_is_substring_search:
  "(match_Level s \<noteq> None \<longleftrightarrow>
      (\<exists>p d r. s = p @ ''Level '' @ d # r \<and> d \<in> set ''0123456789'')) \<and>
   ((\<exists>p d r. s = p @ ''Level '' @ d # r \<and> d \<in> set ''0123456789'') \<longrightarrow>
      (\<exists>p z n r. s = p @ ''Level '' @ replicate z CHR ''0'' @ decimal n @ r \<and>
         \<not> (\<exists>p' d r'. p @ ''Level '' = p' @ ''Level '' @ d # r' \<and> d \<in> set ''0123456789'') \<and>
         (r = [] \<or> hd r \<notin> set ''0123456789'') \<and>
         match_Level s = Some (replicate z CHR ''0'' @ decimal n) \<and>
         severityLevel (Tier_string s) =
           Inr (if n \<le> 9007199254740992 then Exact n else Beyond))) \<and>
   (\<not> (\<exists>p d r. s = p @ ''Level '' @ d # r \<and> d \<in> set ''0123456789'') \<longrightarrow>
      severityLevel (Tier_string s) = Inr (Exact 5) \<and>
      view_severity_badge (ca\<lparr>severity_tier := Tier_string s\<rparr>) =
        Inr ''severity-badge severity-moderate'') \<and>
   severityLevel Tier_absent = Inr (Exact 5) \<and>
   view_severity_badge (ca\<lparr>severity_tier := Tier_absent\<rparr>) =
     Inr ''severity-badge severity-moderate'' \<and>
   severityLevel (Tier_string ''Level 10'') = Inr (Exact 10) \<and>
   view_severity_badge (ca\<lparr>severity_tier := Tier_string ''Level 10''\<rparr>) =
     Inr ''severity-badge severity-critical'' \<and>
   severityLevel (Tier_string ''Tier: Level 42b'') = Inr (Exact 42) \<and>
   severityLevel (Tier_number k) = Inl TypeError \<and>
   severityLevel Tier_other = Inl TypeError"
proof -
  let ?P = "\<exists>p d r. s = p @ ''Level '' @ d # r \<and> d \<in> set ''0123456789''"
  have 1: "match_Level s \<noteq> None \<longleftrightarrow> ?P" using no_match_iff [of s] by simp
  have 2: "?P \<longrightarrow>
      (\<exists>p z n r. s = p @ ''Level '' @ replicate z CHR ''0'' @ decimal n @ r \<and>
         \<not> (\<exists>p' d r'. p @ ''Level '' = p' @ ''Level '' @ d # r' \<and> d \<in> set ''0123456789'') \<and>
         (r = [] \<or> hd r \<notin> set ''0123456789'') \<and>
         match_Level s = Some (replicate z CHR ''0'' @ decimal n) \<and>
         severityLevel (Tier_string s) =
           Inr (if n \<le> 9007199254740992 then Exact n else Beyond))"
  proof (rule impI)
    assume ?P
    from pattern_shape [OF this] obtain p z n r
      where s: "s = p @ ''Level '' @ replicate z CHR ''0'' @ decimal n @ r"
        and nm: "\<not> (\<exists>p' d r'. p @ ''Level '' = p' @ ''Level '' @ d # r' \<and>
          d \<in> set ''0123456789'')"
        and r: "r = [] \<or> hd r \<notin> set ''0123456789''"
      by (elim exE conjE)
    have lv: "severityLevel (Tier_string s) =
        Inr (if n \<le> 9007199254740992 then Exact n else Beyond)"
      unfolding s using nm r by (rule severityLevel_pattern)
    let ?ds = "replicate z CHR ''0'' @ decimal n"
    from nm have nm': "match_Level (p @ ''Level '') = None" unfolding no_match_iff .
    from r have r': "r = [] \<or> \<not> is_digit (hd r)" unfolding is_digit_iff .
    have "is_digit CHR ''0''" by (simp add: is_digit_def)
    then have dg: "\<forall>c\<in>set ?ds. is_digit c" using decimal_digits by auto
    have ne: "?ds \<noteq> []" using decimal_not_Nil by simp
    have "match_Level (p @ ''Level '' @ ?ds @ r) = Some ?ds"
      using nm' ne dg r' by (rule match_Level_leftmost)
    then have m: "match_Level s = Some ?ds" unfolding s by simp
    show "\<exists>p z n r. s = p @ ''Level '' @ replicate z CHR ''0'' @ decimal n @ r \<and>
         \<not> (\<exists>p' d r'. p @ ''Level '' = p' @ ''Level '' @ d # r' \<and> d \<in> set ''0123456789'') \<and>
         (r = [] \<or> hd r \<notin> set ''0123456789'') \<and>
         match_Level s = Some (replicate z CHR ''0'' @ decimal n) \<and>
         severityLevel (Tier_string s) =
           Inr (if n \<le> 9007199254740992 then Exact n else Beyond)"
      by (intro exI conjI) (rule s nm r m lv)+
  qed
  have 3: "\<not> ?P \<longrightarrow>
      severityLevel (Tier_string s) = Inr (Exact 5) \<and>
      view_severity_badge (ca\<lparr>severity_tier := Tier_string s\<rparr>) =
        Inr ''severity-badge severity-moderate''"
  proof (rule impI)
    assume a: "\<not> ?P"
    show "severityLevel (Tier_string s) = Inr (Exact 5) \<and>
      view_severity_badge (ca\<lparr>severity_tier := Tier_string s\<rparr>) =
        Inr ''severity-badge severity-moderate''"
      unfolding badge_of_level severityLevel_no_pattern [OF a] by simp
  qed
  have 4: "severityLevel Tier_absent = Inr (Exact 5)"
    "severityLevel (Tier_number k) = Inl TypeError" "severityLevel Tier_other = Inl TypeError"
    by (simp_all add: severityLevel_def)
  have 5: "severityLevel (Tier_string ''Tier: Level 42b'') = Inr (Exact 42)"
    by (simp add: severityLevel_def match_here_def is_digit_def parseInt_def digits_value_def
      digit_value_def)
  have 6: "view_severity_badge (ca\<lparr>severity_tier := Tier_absent\<rparr>) =
     Inr ''severity-badge severity-moderate''"
    "view_severity_badge (ca\<lparr>severity_tier := Tier_string ''Level 10''\<rparr>) =
     Inr ''severity-badge severity-critical''"
    unfolding badge_of_level 4 severityLevel_examples by simp_all
  show ?thesis by (intro conjI) (rule 1 2 3 4 5 6 severityLevel_examples)+
qed

theorem severity_parse_is_substring_search_witness:
  "(\<exists>p d r. ''Tier: Level 42b'' = p @ ''Level '' @ d # r \<and> d \<in> set ''0123456789'') \<and>
   match_Level ''Tier: Level 42b'' \<noteq> None \<and>
   (\<exists>p z n r. ''Tier: Level 42b'' = p @ ''Level '' @ replicate z CHR ''0'' @ decimal n @ r \<and>
      severityLevel (Tier_string ''Tier: Level 42b'') =
        Inr (if n \<le> 9007199254740992 then Exact n else Beyond)) \<and>
   \<not> (\<exists>p d r. ''level 9'' = p @ ''Level '' @ d # r \<and> d \<in> set ''0123456789'') \<and>
   severityLevel (Tier_string ''level 9'') = Inr (Exact 5)"
proof -
  let ?ca = "\<lparr>summary = ''Boundary dispute'', severity_tier = Tier_absent,
      legal_category = ''Civil'', limitation_status = ''Within time'', risk_warning = None\<rparr>"
  have a: "\<exists>p d r. ''Tier: Level 42b'' = p @ ''Level '' @ d # r \<and> d \<in> set ''0123456789''"
  proof (intro exI conjI)
    show "''Tier: Level 42b'' = ''Tier: '' @ ''Level '' @ CHR ''4'' # ''2b''" by simp
    show "CHR ''4'' \<in> set ''0123456789''" by simp
  qed
  have b: "\<not> (\<exists>p d r. ''level 9'' = p @ ''Level '' @ d # r \<and> d \<in> set ''0123456789'')"
    unfolding no_match_iff [symmetric] by (simp add: match_here_def)
  note t = severity_parse_is_substring_search [of "''Tier: Level 42b''" ?ca 0]
  note u = severity_parse_is_substring_search [of "''level 9''" ?ca 0]
  from t a have 1: "match_Level ''Tier: Level 42b'' \<noteq> None" by (simp only: simp_thms)
  note t2 = t [THEN conjunct2, THEN conjunct1, THEN mp, OF a]
  from t2 have 2: "\<exists>p z n r. ''Tier: Level 42b'' =
        p @ ''Level '' @ replicate z CHR ''0'' @ decimal n @ r \<and>
      severityLevel (Tier_string ''Tier: Level 42b'') =
        Inr (if n \<le> 9007199254740992 then Exact n else Beyond)"
    by (elim exE conjE) (intro exI conjI, assumption+)
  note u3 = u [THEN conjunct2, THEN conjunct2, THEN conjunct1, THEN mp, OF b, THEN conjunct1]
  show ?thesis by (intro conjI) (rule a 1 2 b u3)+
qed

text \<open>
  Claim C3. The urgency word of the results view is \<open>high\<close> when the urgency text
  contains \<open>high\<close> in any mix of upper and lower case; otherwise \<open>immediate\<close> when it
  contains that word; otherwise \<open>medium\<close>. The order matters: a text with both words is
  \<open>high\<close>.
\<close>

theorem urgency_classification:
  "view_urgency u =
     (if \<exists>p w r. u = p @ w @ r \<and> toLowerCase w = ''high'' then ''high''
      else if \<exists>p w r. u = p @ w @ r \<and> toLowerCase w = ''immediate'' then ''immediate''
      else ''medium'') \<and>
   view_urgency ''High priority, immediate'' = ''high'' \<and>
   view_urgency ''Immediate action'' = ''immediate'' \<and>
   view_urgency ''Medium term'' = ''medium''"
proof -
  have "view_urgency ''High priority, immediate'' = ''high''" by code_simp
  moreover have "view_urgency ''Immediate action'' = ''immediate''" by code_simp
  moreover have "view_urgency ''Medium term'' = ''medium''" by code_simp
  moreover have "view_urgency u =
     (if \<exists>p w r. u = p @ w @ r \<and> toLowerCase w = ''high'' then ''high''
      else if \<exists>p w r. u = p @ w @ r \<and> toLowerCase w = ''immediate'' then ''immediate''
      else ''medium'')"
    unfolding view_urgency_def includes_lower_iff ..
  ultimately show ?thesis by blast
qed

theorem urgency_classification_witness:
  "(\<exists>p w r. ''Very HIGH; Immediate'' = p @ w @ r \<and> toLowerCase w = ''high'') \<and>
   view_urgency ''Very HIGH; Immediate'' = ''high''"
proof -
  have e: "\<exists>p w r. ''Very HIGH; Immediate'' = p @ w @ r \<and> toLowerCase w = ''high''"
  proof (intro exI conjI)
    show "''Very HIGH; Immediate'' = ''Very '' @ ''HIGH'' @ ''; Immediate''" by simp
    show "toLowerCase ''HIGH'' = ''high''"
      by (simp add: toLowerCase_def toLowerCase_char_def char_of_def bit_Suc_0_iff)
  qed
  from urgency_classification [of "''Very HIGH; Immediate''"] e
  have "view_urgency ''Very HIGH; Immediate'' = ''high''" by presburger
  with e show ?thesis by blast
qed

text \<open>
  Claim C1 says that the report gives every checklist document the urgency category of the
  results view. For the urgency \<open>Immediate action\<close> the view interpolates
  \<open>immediate\<close> and the report interpolates nothing.
\<close>

theorem renderings_diverge_on_urgency:
  "view_urgency (urgency \<lparr>document = ''Sale deed'', source = ''Sub-registrar office'',
       urgency = ''Immediate action''\<rparr>) = ''immediate'' \<and>
   report_urgency (urgency \<lparr>document = ''Sale deed'', source = ''Sub-registrar office'',
       urgency = ''Immediate action''\<rparr>) = []"
  by (simp add: view_urgency_def report_urgency_def toLowerCase_def toLowerCase_char_def
      char_of_def bit_Suc_0_iff)

text \<open>
  Claim C1, amended. The two severity badges carry the same class for every analysis result.
  For every checklist document the report marks it \<open>high\<close> exactly when the results view
  does, and gives it no urgency class otherwise.
\<close>

theorem renderings_agree_on_severity_and_high:
  "report_severity_badge (case_analysis r) = view_severity_badge (case_analysis r) \<and>
   (\<forall>doc \<in> set (smart_document_checklist r).
      (report_urgency (urgency doc) = ''high'' \<longleftrightarrow> view_urgency (urgency doc) = ''high'') \<and>
      (view_urgency (urgency doc) \<noteq> ''high'' \<longrightarrow> report_urgency (urgency doc) = []))"
  by (simp add: report_severity_badge_def view_severity_badge_def report_urgency_def
      view_urgency_def split: sum.splits)

theorem renderings_agree_on_severity_and_high_witness:
  "\<lparr>document = ''7/12 Extract'', source = ''Talathi office'',
      urgency = ''High priority, immediate''\<rparr> \<in> set (smart_document_checklist sample_analysis) \<and>
   report_urgency ''High priority, immediate'' = ''high'' \<and>
   \<lparr>document = ''Tax receipts'', source = ''Municipal office'',
      urgency = ''Medium term''\<rparr> \<in> set (smart_document_checklist sample_analysis) \<and>
   view_urgency ''Medium term'' \<noteq> ''high'' \<and>
   report_urgency ''Medium term'' = [] \<and>
   report_severity_badge (case_analysis sample_analysis) =
     Inr ''severity-badge severity-critical''"
proof -
  let ?d1 = "\<lparr>document = ''7/12 Extract'', source = ''Talathi office'',
      urgency = ''High priority, immediate''\<rparr>"
  let ?d3 = "\<lparr>document = ''Tax receipts'', source = ''Municipal office'',
      urgency = ''Medium term''\<rparr>"
  have m1: "?d1 \<in> set (smart_document_checklist sample_analysis)"
    by (simp add: sample_analysis_def)
  have m3: "?d3 \<in> set (smart_document_checklist sample_analysis)"
    by (simp add: sample_analysis_def)
  have v1: "view_urgency ''High priority, immediate'' = ''high''" by code_simp
  have v3: "view_urgency ''Medium term'' \<noteq> ''high''" by code_simp
  have b: "view_severity_badge (case_analysis sample_analysis) =
      Inr ''severity-badge severity-critical''"
    by (simp add: sample_analysis_def view_severity_badge_def severityLevel_examples)
  note t = renderings_agree_on_severity_and_high [of sample_analysis]
  from t m1 v1 have "report_urgency ''High priority, immediate'' = ''high''" by fastforce
  moreover from t m3 v3 have "report_urgency ''Medium term'' = []" by fastforce
  moreover from t b have "report_severity_badge (case_analysis sample_analysis) =
      Inr ''severity-badge severity-critical''" by simp
  ultimately show ?thesis using m1 m3 v3 by blast
qed

section \<open>The wizard as a state machine\<close>

lemma length_QUESTIONS: "length QUESTIONS = 12"
  by (simp add: QUESTIONS_def)

lemma qtype_QUESTIONS:
  "map qtype QUESTIONS = [Select, Select, Select, Select, Select, Select, Select, Multiselect,
     Select, Select, Select, Select]"
  by (simp add: QUESTIONS_def)

lemma distinct_qid: "distinct (map qid QUESTIONS)"
  by (simp add: QUESTIONS_def)

lemma render_FormD:
  "render st = Form q e \<Longrightarrow>
     analysisResult st = None \<and> \<not> isAnalyzing st \<and> question st = Some q \<and> e = error st"
  by (auto simp: render_def split: option.splits if_splits)

lemma questionD:
  "question st = Some q \<Longrightarrow> currentQuestion st < length QUESTIONS \<and> q = QUESTIONS ! currentQuestion st"
  by (auto simp: question_def split: if_splits)

subsection \<open>Timers\<close>

lemma timers_settle [simp]: "timers (settle out st) = timers st"
  by (induction out st rule: settle.induct) (simp_all add: catch_block_def)

lemma nextTimer_settle [simp]: "nextTimer (settle out st) = nextTimer st"
  by (induction out st rule: settle.induct) (simp_all add: catch_block_def)

lemma timers_timer_callback [simp]: "timers (timer_callback t st) = timers st"
  by (simp add: timer_callback_def submitCaseWithAnswer_def)

lemma nextTimer_timer_callback [simp]: "nextTimer (timer_callback t st) = nextTimer st"
  by (simp add: timer_callback_def submitCaseWithAnswer_def)

lemma nextTimer_step: "nextTimer st \<le> nextTimer (step e st)"
  by (cases e)
    (auto simp: handleSelect_def handleNext_def handleBack_def startNewCase_def returnHome_def
      submitCase_def split: view.splits option.splits answer.splits)

lemma nextTimer_run: "nextTimer st \<le> nextTimer (run evs st)"
proof (induction evs arbitrary: st)
  case Nil
  show ?case by simp
next
  case (Cons e evs)
  have "nextTimer st \<le> nextTimer (step e st)" by (rule nextTimer_step)
  also have "\<dots> \<le> nextTimer (run evs (step e st))" by (rule Cons.IH)
  finally show ?case by simp
qed

lemma map_of_delete_other: "i \<noteq> j \<Longrightarrow> map_of (AList.delete i al) j = map_of al j"
  by (simp add: delete_conv')

lemma timer_kept_step:
  assumes "i < nextTimer st" "e \<noteq> Timer_fires i"
  shows "map_of (timers (step e st)) i = map_of (timers st) i"
proof (cases e)
  case (Click_option v)
  with assms show ?thesis
    by (auto simp: handleSelect_def split: view.splits option.splits answer.splits)
next
  case (Timer_fires j)
  with assms have "j \<noteq> i" by auto
  with Timer_fires show ?thesis by (simp add: map_of_delete_other split: option.splits)
qed (auto simp: handleNext_def handleBack_def startNewCase_def returnHome_def
      submitCase_def split: view.splits)

lemma timer_kept_run:
  assumes "i < nextTimer st" "Timer_fires i \<notin> set evs"
  shows "map_of (timers (run evs st)) i = map_of (timers st) i"
  using assms
proof (induction evs arbitrary: st)
  case Nil
  show ?case by simp
next
  case (Cons e evs)
  from Cons.prems have ne: "e \<noteq> Timer_fires i" and rest: "Timer_fires i \<notin> set evs" by auto
  have "i < nextTimer (step e st)" using Cons.prems(1) nextTimer_step [of st e] by simp
  then have "map_of (timers (run evs (step e st))) i = map_of (timers (step e st)) i"
    using rest by (rule Cons.IH)
  also have "\<dots> = map_of (timers st) i" using Cons.prems(1) ne by (rule timer_kept_step)
  finally show ?case by simp
qed

lemma timer_gone_step:
  assumes "i < nextTimer st" "map_of (timers st) i = None"
  shows "map_of (timers (step e st)) i = None"
proof (cases "e = Timer_fires i")
  case True
  with assms show ?thesis by simp
next
  case False
  with assms timer_kept_step [of i st e] show ?thesis by simp
qed

lemma timer_gone_run:
  assumes "i < nextTimer st" "map_of (timers st) i = None"
  shows "map_of (timers (run evs st)) i = None"
  using assms
proof (induction evs arbitrary: st)
  case Nil
  then show ?case by simp
next
  case (Cons e evs)
  have "i < nextTimer (step e st)" using Cons.prems(1) nextTimer_step [of st e] by simp
  moreover have "map_of (timers (step e st)) i = None" using Cons.prems by (rule timer_gone_step)
  ultimately show ?case using Cons.IH by simp
qed

lemma step_select_single:
  assumes "render st = Form q e" "qtype q = Select" "v \<in> set (options q)"
  shows "step (Click_option v) st =
     st\<lparr>answers := AList.update (qid q) (Single v) (answers st),
        timers := (nextTimer st,
           \<lparr>t_currentQuestion = currentQuestion st, t_answers = answers st,
            t_question = q, t_value = v\<rparr>) # timers st,
        nextTimer := nextTimer st + 1\<rparr>"
  using assms render_FormD [OF assms(1)] by (simp add: handleSelect_def)

lemma qtype_nth:
  assumes "i < length QUESTIONS"
  shows "qtype (QUESTIONS ! i) = (if i = 7 then Multiselect else Select)"
proof -
  have "qtype (QUESTIONS ! i) = map qtype QUESTIONS ! i" using assms by simp
  moreover have "i \<in> {0, 1, 2, 3, 4, 5, 6, 7, 8, 9, 10, 11}"
    using assms unfolding length_QUESTIONS by simp arith
  ultimately show ?thesis unfolding qtype_QUESTIONS by auto
qed

text \<open>
  Claim C5. On the last question, clicking an option stores it and schedules the timer.
  Whatever happens before that timer fires, firing it issues one request whose body is the
  answer map of the moment of the click with the clicked option stored under the question,
  and sets the analysing flag.
\<close>

theorem last_question_submits_captured_answers:
  assumes "render st = Form q e" and "currentQuestion st = length QUESTIONS - 1"
    and "v \<in> set (options q)" and "Timer_fires (nextTimer st) \<notin> set evs"
  shows "qtype q = Select \<and>
     map_of (answers (step (Click_option v) st)) (qid q) = Some (Single v) \<and>
     requests (step (Timer_fires (nextTimer st)) (run evs (step (Click_option v) st))) =
       requests (run evs (step (Click_option v) st)) @
         [AList.update (qid q) (Single v) (answers st)] \<and>
     map_of (last (requests
         (step (Timer_fires (nextTimer st)) (run evs (step (Click_option v) st))))) (qid q) =
       Some (Single v) \<and>
     isAnalyzing (step (Timer_fires (nextTimer st)) (run evs (step (Click_option v) st))) \<and>
     (analysisResult (run evs (step (Click_option v) st)) = None \<longrightarrow>
        phase (step (Timer_fires (nextTimer st)) (run evs (step (Click_option v) st))) =
          Submitting)"
proof -
  let ?i = "nextTimer st"
  let ?t = "\<lparr>t_currentQuestion = currentQuestion st, t_answers = answers st,
            t_question = q, t_value = v\<rparr>"
  let ?st1 = "step (Click_option v) st"
  let ?st2 = "run evs ?st1"
  let ?st3 = "step (Timer_fires ?i) ?st2"
  from render_FormD [OF assms(1)] have qq: "question st = Some q" by simp
  from questionD [OF qq] assms(2) have sel: "qtype q = Select"
    using qtype_nth [of "currentQuestion st"] by (simp add: length_QUESTIONS)
  note s1 = step_select_single [OF assms(1) sel assms(3)]
  have a1: "map_of (answers ?st1) (qid q) = Some (Single v)"
    unfolding s1 by (simp add: update_conv')
  have "map_of (timers ?st1) ?i = Some ?t" unfolding s1 by simp
  moreover have "?i < nextTimer ?st1" unfolding s1 by simp
  ultimately have pend: "map_of (timers ?st2) ?i = Some ?t"
    using timer_kept_run [of ?i ?st1 evs] assms(4) by simp
  have cb: "?st3 = submitCaseWithAnswer (AList.update (qid q) (Single v) (answers st))
       (?st2\<lparr>timers := AList.delete ?i (timers ?st2)\<rparr>)"
    using pend assms(2) by (simp add: timer_callback_def)
  have r: "requests ?st3 = requests ?st2 @ [AList.update (qid q) (Single v) (answers st)]"
    unfolding cb by (simp add: submitCaseWithAnswer_def)
  have l: "map_of (last (requests ?st3)) (qid q) = Some (Single v)"
    unfolding r by (simp add: update_conv')
  have an: "isAnalyzing ?st3" unfolding cb by (simp add: submitCaseWithAnswer_def)
  have ph: "phase ?st3 = Submitting" if "analysisResult ?st2 = None"
    unfolding cb using that by (simp add: submitCaseWithAnswer_def phase_def)
  from sel a1 r l an ph show ?thesis by blast
qed

theorem last_question_submits_captured_answers_witness:
  "render (run first_eleven initial) = Form (QUESTIONS ! 11) None \<and>
   currentQuestion (run first_eleven initial) = length QUESTIONS - 1 \<and>
   ''I want to sell and exit'' \<in> set (options (QUESTIONS ! 11)) \<and>
   Timer_fires (nextTimer (run first_eleven initial)) \<notin>
     set [Click_option ''I just want monetary compensation''] \<and>
   requests (step (Timer_fires (nextTimer (run first_eleven initial)))
      (run [Click_option ''I just want monetary compensation'']
         (step (Click_option ''I want to sell and exit'') (run first_eleven initial)))) =
     requests (run [Click_option ''I just want monetary compensation'']
         (step (Click_option ''I want to sell and exit'') (run first_eleven initial))) @
     [AList.update (qid (QUESTIONS ! 11)) (Single ''I want to sell and exit'')
        (answers (run first_eleven initial))] \<and>
   map_of (answers (run [Click_option ''I just want monetary compensation'']
         (step (Click_option ''I want to sell and exit'') (run first_eleven initial))))
      ''desired_outcome'' = Some (Single ''I just want monetary compensation'')"
proof -
  have h1: "render (run first_eleven initial) = Form (QUESTIONS ! 11) None" by code_simp
  have h2: "currentQuestion (run first_eleven initial) = length QUESTIONS - 1" by code_simp
  have h3: "''I want to sell and exit'' \<in> set (options (QUESTIONS ! 11))" by code_simp
  have h4: "Timer_fires (nextTimer (run first_eleven initial)) \<notin>
     set [Click_option ''I just want monetary compensation'']" by simp
  have h5: "map_of (answers (run [Click_option ''I just want monetary compensation'']
         (step (Click_option ''I want to sell and exit'') (run first_eleven initial))))
      ''desired_outcome'' = Some (Single ''I just want monetary compensation'')" by code_simp
  from last_question_submits_captured_answers [OF h1 h2 h3 h4] h1 h2 h3 h4 h5
  show ?thesis by blast
qed

text \<open>
  Claim C9. On a question that is not the last, the timer scheduled by a click on an option
  stays pending through every later event (nothing cancels it), firing it sets the question
  index to one past the index of the click, wherever the user has navigated meanwhile, and
  once fired it is gone for good: firing it again changes nothing.
\<close>

theorem auto_advance_fires_regardless:
  assumes "render st = Form q e" and "currentQuestion st < length QUESTIONS - 1"
    and "qtype q = Select" and "v \<in> set (options q)"
    and "Timer_fires (nextTimer st) \<notin> set evs"
  shows "map_of (timers (run evs (step (Click_option v) st))) (nextTimer st) =
       Some \<lparr>t_currentQuestion = currentQuestion st, t_answers = answers st,
            t_question = q, t_value = v\<rparr> \<and>
     currentQuestion (step (Timer_fires (nextTimer st)) (run evs (step (Click_option v) st))) =
       currentQuestion st + 1 \<and>
     map_of (timers (run evs'
         (step (Timer_fires (nextTimer st)) (run evs (step (Click_option v) st)))))
       (nextTimer st) = None \<and>
     step (Timer_fires (nextTimer st))
       (run evs' (step (Timer_fires (nextTimer st)) (run evs (step (Click_option v) st)))) =
     run evs' (step (Timer_fires (nextTimer st)) (run evs (step (Click_option v) st)))"
proof -
  let ?i = "nextTimer st"
  let ?t = "\<lparr>t_currentQuestion = currentQuestion st, t_answers = answers st,
            t_question = q, t_value = v\<rparr>"
  let ?st1 = "step (Click_option v) st"
  let ?st2 = "run evs ?st1"
  let ?st3 = "step (Timer_fires ?i) ?st2"
  note s1 = step_select_single [OF assms(1) assms(3) assms(4)]
  have "map_of (timers ?st1) ?i = Some ?t" unfolding s1 by simp
  moreover have lt1: "?i < nextTimer ?st1" unfolding s1 by simp
  ultimately have pend: "map_of (timers ?st2) ?i = Some ?t"
    using timer_kept_run [of ?i ?st1 evs] assms(5) by simp
  have cb: "?st3 = ?st2\<lparr>timers := AList.delete ?i (timers ?st2),
      currentQuestion := currentQuestion st + 1\<rparr>"
    using pend assms(2) by (simp add: timer_callback_def)
  have cq: "currentQuestion ?st3 = currentQuestion st + 1" unfolding cb by simp
  have lt3: "?i < nextTimer ?st3"
    using lt1 nextTimer_run [of ?st1 evs] nextTimer_step [of ?st2 "Timer_fires ?i"] by simp
  have "map_of (timers ?st3) ?i = None" unfolding cb by (simp add: delete_conv')
  with lt3 have gone: "map_of (timers (run evs' ?st3)) ?i = None" by (rule timer_gone_run)
  then have again: "step (Timer_fires ?i) (run evs' ?st3) = run evs' ?st3" by simp
  from pend cq gone again show ?thesis by blast
qed

theorem auto_advance_fires_regardless_witness:
  "render (run [Click_option ''Delhi'', Timer_fires 0] initial) = Form (QUESTIONS ! 1) None \<and>
   currentQuestion (run [Click_option ''Delhi'', Timer_fires 0] initial) < length QUESTIONS - 1 \<and>
   qtype (QUESTIONS ! 1) = Select \<and>
   ''Apartment/Flat'' \<in> set (options (QUESTIONS ! 1)) \<and>
   Timer_fires (nextTimer (run [Click_option ''Delhi'', Timer_fires 0] initial)) \<notin>
     set [Click_back] \<and>
   currentQuestion (run [Click_back] (step (Click_option ''Apartment/Flat'')
      (run [Click_option ''Delhi'', Timer_fires 0] initial))) = 0 \<and>
   currentQuestion (step (Timer_fires (nextTimer (run [Click_option ''Delhi'', Timer_fires 0] initial)))
      (run [Click_back] (step (Click_option ''Apartment/Flat'')
         (run [Click_option ''Delhi'', Timer_fires 0] initial)))) =
     currentQuestion (run [Click_option ''Delhi'', Timer_fires 0] initial) + 1"
proof -
  let ?st = "run [Click_option ''Delhi'', Timer_fires 0] initial"
  have h1: "render ?st = Form (QUESTIONS ! 1) None" by code_simp
  have h2: "currentQuestion ?st < length QUESTIONS - 1" by code_simp
  have h3: "qtype (QUESTIONS ! 1) = Select" by code_simp
  have h4: "''Apartment/Flat'' \<in> set (options (QUESTIONS ! 1))" by code_simp
  have h5: "Timer_fires (nextTimer ?st) \<notin> set [Click_back]" by simp
  have h6: "currentQuestion (run [Click_back] (step (Click_option ''Apartment/Flat'') ?st)) = 0"
    by code_simp
  from auto_advance_fires_regardless [OF h1 h2 h3 h4 h5] h1 h2 h3 h4 h5 h6
  show ?thesis by blast
qed

subsection \<open>Submission\<close>

text \<open>
  Claim C6 says that every failed submission leaves the phase failed. On the last question a
  click on an option enables Analyze Case at once and schedules the timer; clicking Analyze
  Case and letting the timer fire puts two requests in flight. When the first succeeds and
  the second is rejected, the error is set, but the result is held and the results view
  stays: the phase is not failed and the message is not shown.
\<close>

theorem failure_after_success_shows_results:
  "requests (run (first_eleven @
      [Click_option ''I want to sell and exit'', Click_next, Timer_fires 10]) initial) =
     [answers (run (first_eleven @ [Click_option ''I want to sell and exit'']) initial),
      answers (run (first_eleven @ [Click_option ''I want to sell and exit'']) initial)] \<and>
   phase (run (first_eleven @
      [Click_option ''I want to sell and exit'', Click_next, Timer_fires 10,
       Fetch_settles (Responded True (Json sample_analysis))]) initial) = Succeeded \<and>
   pending (run (first_eleven @
      [Click_option ''I want to sell and exit'', Click_next, Timer_fires 10,
       Fetch_settles (Responded True (Json sample_analysis))]) initial) = 1 \<and>
   error (run (first_eleven @
      [Click_option ''I want to sell and exit'', Click_next, Timer_fires 10,
       Fetch_settles (Responded True (Json sample_analysis)),
       Fetch_settles (Rejected ''TypeError: Failed to fetch'')]) initial) =
     Some ''Failed to analyze case. Please try again.'' \<and>
   phase (run (first_eleven @
      [Click_option ''I want to sell and exit'', Click_next, Timer_fires 10,
       Fetch_settles (Responded True (Json sample_analysis)),
       Fetch_settles (Rejected ''TypeError: Failed to fetch'')]) initial) = Succeeded \<and>
   render (run (first_eleven @
      [Click_option ''I want to sell and exit'', Click_next, Timer_fires 10,
       Fetch_settles (Responded True (Json sample_analysis)),
       Fetch_settles (Rejected ''TypeError: Failed to fetch'')]) initial) =
     Results sample_analysis"
  by code_simp

text \<open>
  Claim C6, amended. Either submission function issues exactly one request and settling a
  request issues none. When the request is rejected or answered with a non-success status,
  the error is the fixed message, the cause goes to the console only, the analysing flag is
  cleared and the answer map is as before; the phase is failed provided no analysis result
  is held at that moment.
\<close>

theorem failed_submission_keeps_answers:
  "requests (submitCase st) = requests st @ [answers st] \<and>
   requests (submitCaseWithAnswer finalAnswers st) = requests st @ [finalAnswers] \<and>
   answers (submitCase st) = answers st \<and>
   answers (submitCaseWithAnswer finalAnswers st) = answers st \<and>
   requests (step (Fetch_settles out) st) = requests st \<and>
   (out = Rejected err \<or> out = Responded False b \<longrightarrow>
      error (settle out st) = Some ''Failed to analyze case. Please try again.'' \<and>
      \<not> isAnalyzing (settle out st) \<and>
      answers (settle out st) = answers st \<and>
      console (settle out st) =
        console st @
          [''Analysis error: '' @
             (case out of Rejected c \<Rightarrow> c | _ \<Rightarrow> ''Error: Analysis failed'')] \<and>
      (analysisResult st = None \<longrightarrow> phase (settle out st) = Failed))"
proof -
  have rs: "requests (settle out s) = requests s" for s
    by (induction out s rule: settle.induct) (simp_all add: catch_block_def)
  have "requests (step (Fetch_settles out) st) = requests st" by (simp add: rs)
  moreover have "phase (catch_block c st) = Failed" if "analysisResult st = None" for c
    using that by (simp add: phase_def catch_block_def)
  ultimately show ?thesis
    by (auto simp: submitCase_def submitCaseWithAnswer_def catch_block_def)
qed

theorem failed_submission_keeps_answers_witness:
  "phase (run all_twelve initial) = Submitting \<and>
   analysisResult (run all_twelve initial) = None \<and>
   error (settle (Rejected ''TypeError: Failed to fetch'') (run all_twelve initial)) =
     Some ''Failed to analyze case. Please try again.'' \<and>
   phase (settle (Rejected ''TypeError: Failed to fetch'') (run all_twelve initial)) = Failed \<and>
   answers (settle (Rejected ''TypeError: Failed to fetch'') (run all_twelve initial)) =
     answers (run all_twelve initial)"
proof -
  let ?st = "run all_twelve initial"
  let ?out = "Rejected ''TypeError: Failed to fetch''"
  have h1: "analysisResult ?st = None" by code_simp
  have h2: "phase ?st = Submitting" by code_simp
  have h3: "?out = Rejected ''TypeError: Failed to fetch'' \<or> ?out = Responded False (NotJson [])"
    by simp
  note t = failed_submission_keeps_answers [of ?st "[]" ?out "''TypeError: Failed to fetch''"
      "NotJson []", THEN conjunct2, THEN conjunct2, THEN conjunct2, THEN conjunct2,
      THEN conjunct2, THEN mp, OF h3]
  note c1 = t [THEN conjunct1]
  note c2 = t [THEN conjunct2, THEN conjunct2, THEN conjunct1]
  note c3 = t [THEN conjunct2, THEN conjunct2, THEN conjunct2, THEN conjunct2, THEN mp, OF h1]
  show ?thesis by (intro conjI) (rule h2 h1 c1 c3 c2)+
qed

text \<open>
  Claim C7 expects the question form after Start New Case. After a successful submission
  of all twelve answers the results view is shown; Start New Case then clears the result,
  the index and the answers, but the analysing flag set by the submission is still set, so
  the loading view is rendered, with no request pending, and no click changes the state.
\<close>

theorem start_new_case_stays_loading:
  "render (run (all_twelve @ [Fetch_settles (Responded True (Json sample_analysis))]) initial) =
     Results sample_analysis \<and>
   render (run (all_twelve @
       [Fetch_settles (Responded True (Json sample_analysis)), Click_start_new]) initial) =
     Loading \<and>
   phase (run (all_twelve @
       [Fetch_settles (Responded True (Json sample_analysis)), Click_start_new]) initial) =
     Submitting \<and>
   pending (run (all_twelve @
       [Fetch_settles (Responded True (Json sample_analysis)), Click_start_new]) initial) = 0 \<and>
   answers (run (all_twelve @
       [Fetch_settles (Responded True (Json sample_analysis)), Click_start_new]) initial) = [] \<and>
   currentQuestion (run (all_twelve @
       [Fetch_settles (Responded True (Json sample_analysis)), Click_start_new]) initial) = 0 \<and>
   run [Click_option ''Delhi'', Click_next, Click_back] (run (all_twelve @
       [Fetch_settles (Responded True (Json sample_analysis)), Click_start_new]) initial) =
     run (all_twelve @
       [Fetch_settles (Responded True (Json sample_analysis)), Click_start_new]) initial"
  by code_simp

subsection \<open>The answer map\<close>

lemma set_update_subset: "set (AList.update k v al) \<subseteq> insert (k, v) (set al)"
  by (induction al) auto

lemma qid_inj:
  "q \<in> set QUESTIONS \<Longrightarrow> q' \<in> set QUESTIONS \<Longrightarrow> qid q = qid q' \<Longrightarrow> q = q'"
  using distinct_qid by (auto simp: distinct_map inj_on_def)

lemma question_in_QUESTIONS: "question st = Some q \<Longrightarrow> q \<in> set QUESTIONS"
  by (auto simp: question_def split: if_splits)

lemma answers_settle [simp]: "answers (settle out st) = answers st"
  by (induction out st rule: settle.induct) (simp_all add: catch_block_def)

lemma answers_timer_callback [simp]: "answers (timer_callback t st) = answers st"
  by (simp add: timer_callback_def submitCaseWithAnswer_def)

lemma answers_typedI:
  assumes "answers_typed st" "q \<in> set QUESTIONS"
    "case a of Single v \<Rightarrow> qtype q = Select \<and> v \<in> set (options q)
       | Multi vs \<Rightarrow> qtype q = Multiselect \<and> distinct vs \<and> set vs \<subseteq> set (options q)"
    "answers st' = AList.update (qid q) a (answers st)"
  shows "answers_typed st'"
  unfolding answers_typed_def
proof (intro ballI, clarify)
  fix k b assume "(k, b) \<in> set (answers st')"
  then have "(k, b) = (qid q, a) \<or> (k, b) \<in> set (answers st)"
    using assms(4) set_update_subset [of "qid q" a "answers st"] by auto
  then show "\<exists>q\<in>set QUESTIONS. qid q = k \<and>
        (case b of
           Single v \<Rightarrow> qtype q = Select \<and> v \<in> set (options q)
         | Multi vs \<Rightarrow> qtype q = Multiselect \<and> distinct vs \<and> set vs \<subseteq> set (options q))"
  proof
    assume "(k, b) = (qid q, a)"
    with assms(2,3) show ?thesis by auto
  next
    assume "(k, b) \<in> set (answers st)"
    with assms(1) show ?thesis unfolding answers_typed_def by blast
  qed
qed

lemma typed_lookup:
  assumes "answers_typed st" "q \<in> set QUESTIONS" "map_of (answers st) (qid q) = Some a"
  shows "case a of Single v \<Rightarrow> qtype q = Select \<and> v \<in> set (options q)
       | Multi vs \<Rightarrow> qtype q = Multiselect \<and> distinct vs \<and> set vs \<subseteq> set (options q)"
proof -
  from assms(3) have "(qid q, a) \<in> set (answers st)" by (rule map_of_SomeD)
  with assms(1) obtain q' where q': "q' \<in> set QUESTIONS" "qid q' = qid q"
    and c: "case a of Single v \<Rightarrow> qtype q' = Select \<and> v \<in> set (options q')
       | Multi vs \<Rightarrow> qtype q' = Multiselect \<and> distinct vs \<and> set vs \<subseteq> set (options q')"
    unfolding answers_typed_def by blast
  from q' assms(2) have "q' = q" by (auto intro: qid_inj)
  with c show ?thesis by (cases a) simp_all
qed

lemma answers_typed_handleSelect:
  assumes "answers_typed st" "question st = Some q" "v \<in> set (options q)"
  shows "answers_typed (handleSelect v st)"
proof -
  from assms(2) have qin: "q \<in> set QUESTIONS" by (rule question_in_QUESTIONS)
  show ?thesis
  proof (cases "qtype q")
    case Select
    show ?thesis
      by (rule answers_typedI [OF assms(1) qin, of "Single v"])
        (use Select assms in \<open>simp_all add: handleSelect_def\<close>)
  next
    case Multiselect
    show ?thesis
    proof (cases "map_of (answers st) (qid q)")
      case None
      show ?thesis
        by (rule answers_typedI [OF assms(1) qin, of "Multi [v]"])
          (use Multiselect None assms in \<open>simp_all add: handleSelect_def\<close>)
    next
      case (Some a)
      from typed_lookup [OF assms(1) qin Some] Multiselect
      obtain vs where a: "a = Multi vs" and d: "distinct vs" and sub: "set vs \<subseteq> set (options q)"
        by (cases a) auto
      show ?thesis
      proof (cases "v \<in> set vs")
        case True
        show ?thesis
          by (rule answers_typedI [OF assms(1) qin, of "Multi (filter (\<lambda>x. x \<noteq> v) vs)"])
            (use Multiselect Some a d sub True assms in \<open>auto simp: handleSelect_def\<close>)
      next
        case False
        show ?thesis
          by (rule answers_typedI [OF assms(1) qin, of "Multi (vs @ [v])"])
            (use Multiselect Some a d sub False assms in \<open>auto simp: handleSelect_def\<close>)
      qed
    qed
  qed
qed

lemma answers_typed_step: "answers_typed st \<Longrightarrow> answers_typed (step e st)"
proof (cases e)
  case (Click_option v)
  assume t: "answers_typed st"
  show ?thesis
  proof (cases "\<exists>q err. render st = Form q err \<and> v \<in> set (options q)")
    case True
    then obtain q err where r: "render st = Form q err" and v: "v \<in> set (options q)" by blast
    from render_FormD [OF r] have "question st = Some q" by simp
    from answers_typed_handleSelect [OF t this v] show ?thesis
      using Click_option r v by simp
  next
    case False
    then have "step e st = st" using Click_option by (auto split: view.splits)
    with t show ?thesis by simp
  qed
qed (auto simp: answers_typed_def handleNext_def handleBack_def startNewCase_def
      returnHome_def submitCase_def split: view.splits option.splits)

lemma answers_typed_run: "answers_typed st \<Longrightarrow> answers_typed (run evs st)"
  by (induction evs arbitrary: st) (simp_all add: answers_typed_step)

lemma answers_typed_initial: "answers_typed initial"
  by (simp add: answers_typed_def initial_def)

lemma keys_step:
  "fst ` set (answers (step e st)) \<subseteq> fst ` set (answers st) \<union> selected_ids [e] st"
proof (cases e)
  case (Click_option v)
  show ?thesis
  proof (cases "\<exists>q err. render st = Form q err \<and> v \<in> set (options q)")
    case True
    then obtain q err where r: "render st = Form q err" and v: "v \<in> set (options q)" by blast
    from render_FormD [OF r] have q: "question st = Some q" by simp
    have "fst ` set (answers (handleSelect v st)) \<subseteq> insert (qid q) (fst ` set (answers st))"
      using q by (auto simp: handleSelect_def dom_update split: option.splits answer.splits if_splits)
    then show ?thesis using Click_option r v by auto
  next
    case False
    then have "step e st = st" using Click_option by (auto split: view.splits)
    then show ?thesis by auto
  qed
qed (auto simp: handleNext_def handleBack_def startNewCase_def
      returnHome_def submitCase_def split: view.splits option.splits)

lemma selected_ids_Cons: "selected_ids (e # es) st = selected_ids [e] st \<union> selected_ids es (step e st)"
  by simp

lemma keys_run:
  "fst ` set (answers (run evs st)) \<subseteq> fst ` set (answers st) \<union> selected_ids evs st"
proof (induction evs arbitrary: st)
  case Nil
  show ?case by simp
next
  case (Cons e evs)
  have "fst ` set (answers (run evs (step e st))) \<subseteq>
      fst ` set (answers (step e st)) \<union> selected_ids evs (step e st)" by (rule Cons.IH)
  also have "\<dots> \<subseteq> (fst ` set (answers st) \<union> selected_ids [e] st) \<union> selected_ids evs (step e st)"
    using keys_step [of e st] by blast
  finally show ?case unfolding selected_ids_Cons [of e evs] by (simp add: Un_assoc)
qed

lemma canProceed_typed:
  assumes "answers_typed st" "render st = Form q err"
  shows "canProceed st \<longleftrightarrow>
     (\<exists>s. s \<noteq> [] \<and> map_of (answers st) (qid q) = Some (Single s)) \<or>
     (\<exists>vs. vs \<noteq> [] \<and> map_of (answers st) (qid q) = Some (Multi vs))"
proof -
  from render_FormD [OF assms(2)] have q: "question st = Some q" by simp
  then have qin: "q \<in> set QUESTIONS" by (rule question_in_QUESTIONS)
  show ?thesis
  proof (cases "map_of (answers st) (qid q)")
    case None
    with q show ?thesis by (simp add: canProceed_def)
  next
    case (Some a)
    from typed_lookup [OF assms(1) qin Some] Some q show ?thesis
      by (cases a) (auto simp: canProceed_def)
  qed
qed

lemma toggle_off_last:
  assumes "answers_typed st" "render st = Form q err"
    "map_of (answers st) (qid q) = Some (Multi [v])"
  shows "map_of (answers (step (Click_option v) st)) (qid q) = Some (Multi [])"
proof -
  from render_FormD [OF assms(2)] have q: "question st = Some q" by simp
  then have qin: "q \<in> set QUESTIONS" by (rule question_in_QUESTIONS)
  from typed_lookup [OF assms(1) qin assms(3)]
  have m: "qtype q = Multiselect" and v: "v \<in> set (options q)" by simp_all
  have "step (Click_option v) st = handleSelect v st" using assms(2) v by simp
  also have "\<dots> = st\<lparr>answers := AList.update (qid q) (Multi []) (answers st)\<rparr>"
    using q m assms(3) by (simp add: handleSelect_def)
  finally show ?thesis by (simp add: update_conv')
qed

text \<open>
  Claim C4 says that a multi-select value is never empty while its key is present. Toggling
  the one selected document off leaves the key \<open>documents_held\<close> with the empty list.
\<close>

theorem toggling_all_off_leaves_empty_list:
  "map_of (answers (run [Click_option ''Delhi'', Timer_fires 0,
      Click_option ''Apartment/Flat'', Timer_fires 1,
      Click_option ''We share possession'', Timer_fires 2,
      Click_option ''Tenant'', Timer_fires 3,
      Click_option ''Tenant is refusing to vacate or pay rent'', Timer_fires 4,
      Click_option ''Don't Know'', Timer_fires 5,
      Click_option ''My name'', Timer_fires 6,
      Click_option ''Will'', Click_option ''Will''] initial)) ''documents_held'' =
     Some (Multi [])"
  by code_simp

text \<open>
  Claim C4, amended. After any events from the initial state, every key of the answer map
  is the id of a question on which an option was clicked; a multi-select value has no
  duplicates; toggling off its only selected option leaves the key present with the empty
  list; and \<open>canProceed\<close> holds exactly when the current question has a non-empty
  answer.
\<close>

theorem answer_map_invariant:
  "fst ` set (answers (run evs initial)) \<subseteq> selected_ids evs initial \<and>
   (\<forall>k vs. map_of (answers (run evs initial)) k = Some (Multi vs) \<longrightarrow> distinct vs) \<and>
   (\<forall>q err v. render (run evs initial) = Form q err \<and>
        map_of (answers (run evs initial)) (qid q) = Some (Multi [v]) \<longrightarrow>
      map_of (answers (step (Click_option v) (run evs initial))) (qid q) = Some (Multi [])) \<and>
   (\<forall>q err. render (run evs initial) = Form q err \<longrightarrow>
      (canProceed (run evs initial) \<longleftrightarrow>
         (\<exists>s. s \<noteq> [] \<and> map_of (answers (run evs initial)) (qid q) = Some (Single s)) \<or>
         (\<exists>vs. vs \<noteq> [] \<and> map_of (answers (run evs initial)) (qid q) = Some (Multi vs))))"
proof -
  have t: "answers_typed (run evs initial)"
    by (rule answers_typed_run [OF answers_typed_initial])
  have 1: "fst ` set (answers (run evs initial)) \<subseteq> selected_ids evs initial"
    using keys_run [of evs initial] by (simp add: initial_def)
  have 2: "distinct vs" if "map_of (answers (run evs initial)) k = Some (Multi vs)" for k vs
  proof -
    from that have "(k, Multi vs) \<in> set (answers (run evs initial))" by (rule map_of_SomeD)
    with t show ?thesis unfolding answers_typed_def by fastforce
  qed
  from 1 2 toggle_off_last [OF t] canProceed_typed [OF t] show ?thesis by blast
qed

theorem answer_map_invariant_witness:
  "''documents_held'' \<in> fst ` set (answers (run first_eleven initial)) \<and>
   ''documents_held'' \<in> selected_ids first_eleven initial \<and>
   map_of (answers (run first_eleven initial)) ''documents_held'' =
     Some (Multi [''Will'', ''Recent Tax Receipt'']) \<and>
   distinct [''Will'', ''Recent Tax Receipt''] \<and>
   render (run first_eleven initial) = Form (QUESTIONS ! 11) None \<and>
   map_of (answers (run first_eleven initial)) (qid (QUESTIONS ! 11)) = None \<and>
   \<not> canProceed (run first_eleven initial) \<and>
   render (run (take 15 first_eleven) initial) = Form (QUESTIONS ! 7) None \<and>
   map_of (answers (run (take 15 first_eleven) initial)) (qid (QUESTIONS ! 7)) =
     Some (Multi [''Will'']) \<and>
   map_of (answers (step (Click_option ''Will'') (run (take 15 first_eleven) initial)))
     (qid (QUESTIONS ! 7)) = Some (Multi [])"
proof -
  have h1: "''documents_held'' \<in> fst ` set (answers (run first_eleven initial))" by code_simp
  have h2: "map_of (answers (run first_eleven initial)) ''documents_held'' =
     Some (Multi [''Will'', ''Recent Tax Receipt''])" by code_simp
  have h3: "render (run first_eleven initial) = Form (QUESTIONS ! 11) None" by code_simp
  have h4: "map_of (answers (run first_eleven initial)) (qid (QUESTIONS ! 11)) = None"
    by code_simp
  have h5: "render (run (take 15 first_eleven) initial) = Form (QUESTIONS ! 7) None"
    by code_simp
  have h6: "map_of (answers (run (take 15 first_eleven) initial)) (qid (QUESTIONS ! 7)) =
     Some (Multi [''Will''])" by code_simp
  note t = answer_map_invariant [of first_eleven]
  from t have t1: "fst ` set (answers (run first_eleven initial)) \<subseteq>
      selected_ids first_eleven initial" by (rule conjunct1)
  note t2 = t [THEN conjunct2, THEN conjunct1, rule_format, OF h2]
  note t3 = t [THEN conjunct2, THEN conjunct2, THEN conjunct2, rule_format, OF h3]
  note t4 = answer_map_invariant [of "take 15 first_eleven", THEN conjunct2, THEN conjunct2,
      THEN conjunct1, rule_format, OF conjI, OF h5 h6]
  from t1 h1 have c1: "''documents_held'' \<in> selected_ids first_eleven initial"
    by (rule subsetD)
  have c3: "\<not> canProceed (run first_eleven initial)" unfolding t3 h4 by simp
  show ?thesis by (intro conjI) (rule h1 c1 h2 t2 h3 h4 c3 h5 h6 t4)+
qed

subsection \<open>From the first question to the badge\<close>

text \<open>
  Claim C8 speaks of the 11 questions of the catalogue. The catalogue has 12: after eleven
  answers the wizard shows the twelfth question, has sent nothing, and Next is disabled.
\<close>

theorem eleven_answers_do_not_submit:
  "length QUESTIONS = 12 \<and>
   length [''Delhi'', ''Apartment/Flat'', ''We share possession'', ''Tenant'',
     ''Tenant is refusing to vacate or pay rent'', ''Don't Know'', ''My name'', ''Will'',
     ''No legal action yet'', ''No immediate threat'', ''3-12 years ago''] = 11 \<and>
   requests (answer_all [''Delhi'', ''Apartment/Flat'', ''We share possession'', ''Tenant'',
     ''Tenant is refusing to vacate or pay rent'', ''Don't Know'', ''My name'', ''Will'',
     ''No legal action yet'', ''No immediate threat'', ''3-12 years ago''] initial) = [] \<and>
   render (answer_all [''Delhi'', ''Apartment/Flat'', ''We share possession'', ''Tenant'',
     ''Tenant is refusing to vacate or pay rent'', ''Don't Know'', ''My name'', ''Will'',
     ''No legal action yet'', ''No immediate threat'', ''3-12 years ago''] initial) =
     Form (QUESTIONS ! 11) None \<and>
   \<not> canProceed (answer_all [''Delhi'', ''Apartment/Flat'', ''We share possession'', ''Tenant'',
     ''Tenant is refusing to vacate or pay rent'', ''Don't Know'', ''My name'', ''Will'',
     ''No legal action yet'', ''No immediate threat'', ''3-12 years ago''] initial)"
  by code_simp

lemma update_fresh: "k \<notin> fst ` set al \<Longrightarrow> AList.update k v al = al @ [(k, v)]"
  by (induction al) auto

lemma qid_fresh:
  assumes "k < length QUESTIONS"
  shows "qid (QUESTIONS ! k) \<notin> fst ` set (map2 stored (take k QUESTIONS) vs)"
proof
  assume "qid (QUESTIONS ! k) \<in> fst ` set (map2 stored (take k QUESTIONS) vs)"
  then obtain q v where "(q, v) \<in> set (zip (take k QUESTIONS) vs)" "qid q = qid (QUESTIONS ! k)"
    by (auto simp: stored_def)
  then have "q \<in> set (take k QUESTIONS)" and e: "qid q = qid (QUESTIONS ! k)"
    by (auto dest: set_zip_leftD)
  then obtain i where i: "i < k" "q = QUESTIONS ! i"
    using assms by (auto simp: in_set_conv_nth)
  with e assms have "i = k"
    using nth_eq_iff_index_eq [OF distinct_qid, of i k] by simp
  with i show False by simp
qed

lemma map2_snoc:
  assumes "k < length QUESTIONS" "length vs = k"
  shows "map2 stored (take (Suc k) QUESTIONS) (vs @ [v]) =
     map2 stored (take k QUESTIONS) vs @ [stored (QUESTIONS ! k) v]"
  using assms by (simp add: take_Suc_conv_app_nth)

lemma answer_question_next:
  assumes "at_question k vs st" "Suc k < length QUESTIONS" "length vs = k"
    "v \<in> set (options (QUESTIONS ! k))"
  shows "at_question (Suc k) (vs @ [v]) (answer_question v st)"
proof -
  let ?q = "QUESTIONS ! k"
  from assms(1) have st: "currentQuestion st = k" "analysisResult st = None" "\<not> isAnalyzing st"
    "error st = None" "answers st = map2 stored (take k QUESTIONS) vs" "timers st = []"
    "requests st = []" "pending st = 0"
    by (simp_all add: at_question_def)
  from assms(2) have k: "k < length QUESTIONS" by simp
  have q: "question st = Some ?q" using st(1) k by (simp add: question_def)
  have r: "render st = Form ?q None" using st q by (simp add: render_def)
  have fresh: "qid ?q \<notin> fst ` set (answers st)" unfolding st(5) by (rule qid_fresh [OF k])
  then have none: "map_of (answers st) (qid ?q) = None" by (simp add: map_of_eq_None_iff)
  note snoc = map2_snoc [OF k assms(3), of v]
  from assms(2) have lt: "k < length QUESTIONS - 1" by simp
  show ?thesis
  proof (cases "qtype ?q")
    case Select
    have 1: "step (Click_option v) st =
        st\<lparr>answers := answers st @ [(qid ?q, Single v)],
           timers := [(nextTimer st, \<lparr>t_currentQuestion = k, t_answers = answers st,
              t_question = ?q, t_value = v\<rparr>)],
           nextTimer := nextTimer st + 1\<rparr>"
      unfolding step_select_single [OF r Select assms(4)]
      by (simp add: update_fresh [OF fresh] st(1,6))
    have 2: "answer_question v st = step (Timer_fires (nextTimer st)) (step (Click_option v) st)"
      using q Select by (simp add: answer_question_def)
    have sq: "stored ?q v = (qid ?q, Single v)" using Select by (simp add: stored_def)
    show ?thesis unfolding 2 1 using st lt
      by (simp add: timer_callback_def at_question_def snoc sq)
  next
    case Multiselect
    have 1: "step (Click_option v) st = st\<lparr>answers := answers st @ [(qid ?q, Multi [v])]\<rparr>"
      using r q assms(4) Multiselect none by (simp add: handleSelect_def update_fresh [OF fresh])
    have 2: "answer_question v st = step Click_next (step (Click_option v) st)"
      using q Multiselect by (simp add: answer_question_def)
    have 3: "map_of (answers st @ [(qid ?q, Multi [v])]) (qid ?q) = Some (Multi [v])"
      using none by (simp add: map_add_def)
    have sq: "stored ?q v = (qid ?q, Multi [v])" using Multiselect by (simp add: stored_def)
    show ?thesis unfolding 2 1 using st lt k Multiselect 3
      by (simp add: at_question_def snoc sq render_def question_def canProceed_def
          handleNext_def)
  qed
qed

lemma answer_all_snoc: "answer_all (vs @ [v]) st = answer_question v (answer_all vs st)"
  by (simp add: answer_all_def)

lemma answer_all_prefix:
  assumes "length vs < length QUESTIONS"
    and "\<forall>i<length vs. vs ! i \<in> set (options (QUESTIONS ! i))"
  shows "at_question (length vs) vs (answer_all vs initial)"
  using assms
proof (induction vs rule: rev_induct)
  case Nil
  show ?case by (simp add: at_question_def initial_def answer_all_def)
next
  case (snoc v vs)
  from snoc.prems have len: "Suc (length vs) < length QUESTIONS" by simp
  have "\<forall>i<length vs. vs ! i \<in> set (options (QUESTIONS ! i))"
  proof (intro allI impI)
    fix i assume i: "i < length vs"
    with snoc.prems(2) have "(vs @ [v]) ! i \<in> set (options (QUESTIONS ! i))" by simp
    with i show "vs ! i \<in> set (options (QUESTIONS ! i))" by (simp add: nth_append)
  qed
  with len have at: "at_question (length vs) vs (answer_all vs initial)"
    by (intro snoc.IH) simp_all
  have "length vs < length (vs @ [v])" by simp
  with snoc.prems(2) have "(vs @ [v]) ! length vs \<in> set (options (QUESTIONS ! length vs))"
    by blast
  then have v: "v \<in> set (options (QUESTIONS ! length vs))" by simp
  from answer_question_next [OF at len refl v] show ?case
    unfolding answer_all_snoc by simp
qed

lemma answer_question_last:
  assumes "at_question k vs st" "Suc k = length QUESTIONS" "length vs = k"
    "v \<in> set (options (QUESTIONS ! k))"
  shows "answers (answer_question v st) = map2 stored QUESTIONS (vs @ [v]) \<and>
     requests (answer_question v st) = [answers (answer_question v st)] \<and>
     pending (answer_question v st) = 1 \<and> isAnalyzing (answer_question v st) \<and>
     analysisResult (answer_question v st) = None"
proof -
  let ?q = "QUESTIONS ! k"
  from assms(1) have st: "currentQuestion st = k" "analysisResult st = None" "\<not> isAnalyzing st"
    "error st = None" "answers st = map2 stored (take k QUESTIONS) vs" "timers st = []"
    "requests st = []" "pending st = 0"
    by (simp_all add: at_question_def)
  from assms(2) have k: "k < length QUESTIONS" by simp
  from assms(2) have k11: "k = 11" by (simp add: length_QUESTIONS)
  have Select: "qtype ?q = Select" using qtype_nth [OF k] k11 by simp
  have q: "question st = Some ?q" using st(1) k by (simp add: question_def)
  have r: "render st = Form ?q None" using st q by (simp add: render_def)
  have fresh: "qid ?q \<notin> fst ` set (answers st)" unfolding st(5) by (rule qid_fresh [OF k])
  have snoc: "map2 stored QUESTIONS (vs @ [v]) = answers st @ [(qid ?q, Single v)]"
    using map2_snoc [OF k assms(3), of v] assms(2) Select by (simp add: st(5) stored_def)
  have nlt: "\<not> k < length QUESTIONS - 1" using assms(2) by simp
  have 1: "step (Click_option v) st =
      st\<lparr>answers := answers st @ [(qid ?q, Single v)],
         timers := [(nextTimer st, \<lparr>t_currentQuestion = k, t_answers = answers st,
            t_question = ?q, t_value = v\<rparr>)],
         nextTimer := nextTimer st + 1\<rparr>"
    unfolding step_select_single [OF r Select assms(4)]
    by (simp add: update_fresh [OF fresh] st(1,6))
  have 2: "answer_question v st = step (Timer_fires (nextTimer st)) (step (Click_option v) st)"
    using q Select by (simp add: answer_question_def)
  show ?thesis unfolding 2 1 snoc using nlt st(2,3,7,8)
    by (simp add: timer_callback_def submitCaseWithAnswer_def update_fresh [OF fresh])
qed

text \<open>
  Claim C8, amended. Answering all twelve questions, each with one of its options, sends
  one request holding the twelve answers; a successful response whose tier is \<open>Level 8\<close>
  shows the results view, and both the view and the report give the badge the critical
  class.
\<close>

theorem all_answers_then_level_8_is_critical:
  assumes "list_all2 (\<lambda>v q. v \<in> set (options q)) vs QUESTIONS"
    and "severity_tier (case_analysis r) = Tier_string ''Level 8''"
  shows "length vs = 12 \<and>
     answers (answer_all vs initial) = map2 stored QUESTIONS vs \<and>
     requests (answer_all vs initial) = [answers (answer_all vs initial)] \<and>
     phase (answer_all vs initial) = Submitting \<and>
     render (step (Fetch_settles (Responded True (Json r))) (answer_all vs initial)) =
       Results r \<and>
     view_severity_badge (case_analysis r) = Inr ''severity-badge severity-critical'' \<and>
     report_severity_badge (case_analysis r) = Inr ''severity-badge severity-critical''"
proof -
  from assms(1) have len: "length vs = length QUESTIONS"
    and opt: "\<forall>i<length vs. vs ! i \<in> set (options (QUESTIONS ! i))"
    by (simp_all add: list_all2_conv_all_nth)
  from len have ne: "vs \<noteq> []" by (auto simp: length_QUESTIONS)
  let ?ws = "butlast vs" and ?v = "last vs"
  have vs: "vs = ?ws @ [?v]" using ne by simp
  have lw: "Suc (length ?ws) = length QUESTIONS" using len by (simp add: length_QUESTIONS)
  have "\<forall>i<length ?ws. ?ws ! i \<in> set (options (QUESTIONS ! i))"
    using opt by (simp add: nth_butlast)
  with lw have at: "at_question (length ?ws) ?ws (answer_all ?ws initial)"
    by (intro answer_all_prefix) simp_all
  have "vs ! length ?ws \<in> set (options (QUESTIONS ! length ?ws))" using opt lw len by simp
  moreover have "vs ! length ?ws = ?v" using ne by (simp add: last_conv_nth)
  ultimately have v: "?v \<in> set (options (QUESTIONS ! length ?ws))" by simp
  have aa: "answer_all vs initial = answer_question ?v (answer_all ?ws initial)"
    using answer_all_snoc [of ?ws ?v initial] vs by simp
  from answer_question_last [OF at lw refl v]
  have fin: "answers (answer_all vs initial) = map2 stored QUESTIONS vs"
    "requests (answer_all vs initial) = [answers (answer_all vs initial)]"
    "pending (answer_all vs initial) = 1" "isAnalyzing (answer_all vs initial)"
    "analysisResult (answer_all vs initial) = None"
    unfolding aa [symmetric] using vs by simp_all
  have ph: "phase (answer_all vs initial) = Submitting" using fin by (simp add: phase_def)
  have rn: "render (step (Fetch_settles (Responded True (Json r))) (answer_all vs initial)) =
       Results r" using fin by (simp add: render_def)
  note lv = severityLevel_examples(7)
  have b1: "view_severity_badge (case_analysis r) = Inr ''severity-badge severity-critical''"
    by (simp add: view_severity_badge_def assms(2) lv)
  have b2: "report_severity_badge (case_analysis r) = Inr ''severity-badge severity-critical''"
    by (simp add: report_severity_badge_def assms(2) lv)
  from len have l12: "length vs = 12" by (simp add: length_QUESTIONS)
  show ?thesis by (intro conjI) (rule l12 fin(1) fin(2) ph rn b1 b2)+
qed

theorem all_answers_then_level_8_is_critical_witness:
  "list_all2 (\<lambda>v q. v \<in> set (options q)) twelve_answers QUESTIONS \<and>
   severity_tier (case_analysis sample_analysis) = Tier_string ''Level 8'' \<and>
   requests (answer_all twelve_answers initial) = [answers (answer_all twelve_answers initial)] \<and>
   render (step (Fetch_settles (Responded True (Json sample_analysis)))
      (answer_all twelve_answers initial)) = Results sample_analysis \<and>
   view_severity_badge (case_analysis sample_analysis) =
     Inr ''severity-badge severity-critical'' \<and>
   report_severity_badge (case_analysis sample_analysis) =
     Inr ''severity-badge severity-critical''"
proof -
  have h1: "list_all2 (\<lambda>v q. v \<in> set (options q)) twelve_answers QUESTIONS" by code_simp
  have h2: "severity_tier (case_analysis sample_analysis) = Tier_string ''Level 8''"
    by (simp add: sample_analysis_def)
  from all_answers_then_level_8_is_critical [OF h1 h2] h1 h2 show ?thesis by blast
qed

end
